theory Spec2Isabelle
  imports Complex_Main "HOL-Library.Product_Lexorder" "HOL-Library.Log_Nat" "HOL-Library.AList"
begin

section \<open>Station uptime: the data model\<close>

text \<open>
  The class \<^verbatim>\<open>ChargerReport\<close> of \<^verbatim>\<open>station_uptime.py\<close>: four attributes set by the
  constructor. Python integers are unbounded, so the times are of type \<open>int\<close>.
\<close>

record ChargerReport =
  charger_id :: int
  start_time :: int
  end_time :: int
  is_up :: bool

text \<open>An interval is the Python tuple \<^verbatim>\<open>(start, end)\<close>; tuples compare lexicographically.\<close>

type_synonym interval = "int \<times> int"

section \<open>The interval merge (\<^verbatim>\<open>_merge_intervals\<close>)\<close>

text \<open>
  The body of the loop over \<^verbatim>\<open>intervals[1:]\<close>: \<^verbatim>\<open>merged[-1]\<close> is the last element of
  \<open>merged\<close>, which the loop keeps non-empty. Either the last element's end is raised to the
  maximum, or the interval is appended.
\<close>

definition merge_step :: "interval list \<Rightarrow> interval \<Rightarrow> interval list" where
  "merge_step merged interval =
     (if fst interval \<le> snd (last merged)
      then butlast merged @ [(fst (last merged), max (snd (last merged)) (snd interval))]
      else merged @ [interval])"

text \<open>
  \<^verbatim>\<open>intervals.sort()\<close> sorts the tuples in place; the function goes on with the sorted list.
\<close>

definition merge_intervals :: "interval list \<Rightarrow> interval list" where
  "merge_intervals intervals =
     (if intervals = [] then []
      else let sorted_intervals = sort intervals
           in foldl merge_step [hd sorted_intervals] (tl sorted_intervals))"

section \<open>Reconciling the reports of one charger\<close>

text \<open>
  Lines 150 to 159: what one interval \<^verbatim>\<open>(start, end)\<close> of the running list contributes to
  \<^verbatim>\<open>new_intervals\<close> when the down report covers \<^verbatim>\<open>(s, e)\<close>.
\<close>

definition split_interval :: "int \<Rightarrow> int \<Rightarrow> interval \<Rightarrow> interval list" where
  "split_interval s e iv =
     (case iv of (start, end) \<Rightarrow>
        if end \<le> s \<or> start \<ge> e then [(start, end)]
        else (if start < s then [(start, s)] else []) @
             (if end > e then [(e, end)] else []))"

text \<open>Lines 143 to 160: one report applied to the running list \<^verbatim>\<open>charger_intervals\<close>.\<close>

definition apply_report :: "interval list \<Rightarrow> ChargerReport \<Rightarrow> interval list" where
  "apply_report charger_intervals r =
     (if is_up r then charger_intervals @ [(start_time r, end_time r)]
      else concat (map (split_interval (start_time r) (end_time r)) charger_intervals))"

text \<open>
  Lines 134 and 135: \<^verbatim>\<open>sorted(..., key=lambda x: (x.start_time, not x.is_up))\<close>. Python's sort
  is stable and so is \<open>sort_key\<close>; \<open>False < True\<close> in both.
\<close>

definition sort_reports :: "ChargerReport list \<Rightarrow> ChargerReport list" where
  "sort_reports rs = sort_key (\<lambda>x. (start_time x, \<not> is_up x)) rs"

definition reconcile :: "ChargerReport list \<Rightarrow> interval list" where
  "reconcile reports = foldl apply_report [] reports"

section \<open>Python's float arithmetic\<close>

text \<open>
  The percentage is computed as \<^verbatim>\<open>int((total_up_time / total_time) * 100)\<close>. In Python,
  \<^verbatim>\<open>/\<close> on two integers gives the binary64 number nearest to the exact quotient (ties to
  even), and raises when that number does not fit; \<^verbatim>\<open>*\<close> on floats rounds the exact product
  the same way and gives an infinity when it does not fit; \<^verbatim>\<open>int\<close> truncates towards zero
  and raises on an infinity. A finite float is modelled by the rational number it denotes.
\<close>

datatype error = ValueError | KeyError | ZeroDivisionError | OverflowError

text \<open>The exponent of a non-zero rational: \<open>2 ^ ilog2 x \<le> |x| < 2 ^ (ilog2 x + 1)\<close>.\<close>

definition ilog2 :: "rat \<Rightarrow> int" where
  "ilog2 x =
     (let y = \<bar>x\<bar>
      in if 1 \<le> y then bitlen \<lfloor>y\<rfloor> - 1 else - bitlen (\<lceil>1 / y\<rceil> - 1))"

definition round_half_even :: "rat \<Rightarrow> int" where
  "round_half_even x =
     (let f = \<lfloor>x\<rfloor>; d = x - of_int f
      in if d < 1 / 2 then f
         else if 1 / 2 < d then f + 1
         else if even f then f else f + 1)"

text \<open>
  Rounding to binary64 with the exponent unbounded above: 53 significant bits, and the
  spacing \<open>2 ^ - 1074\<close> of the subnormal numbers as the smallest spacing.
\<close>

definition binary64 :: "rat \<Rightarrow> rat" where
  "binary64 x =
     (if x = 0 then 0
      else let q = 2 powi (max (ilog2 x - 52) (- 1074))
           in of_int (round_half_even (x / q)) * q)"

datatype pyfloat = Finite rat | Infinity

definition int_true_div :: "int \<Rightarrow> int \<Rightarrow> error + rat" where
  "int_true_div a b =
     (if b = 0 then Inl ZeroDivisionError
      else let r = binary64 (of_int a / of_int b)
           in if 2 ^ 1024 \<le> \<bar>r\<bar> then Inl OverflowError else Inr r)"

definition float_mul :: "rat \<Rightarrow> rat \<Rightarrow> pyfloat" where
  "float_mul x y =
     (let r = binary64 (x * y)
      in if 2 ^ 1024 \<le> \<bar>r\<bar> then Infinity else Finite r)"

definition float_to_int :: "pyfloat \<Rightarrow> error + int" where
  "float_to_int f =
     (case f of
        Infinity \<Rightarrow> Inl OverflowError
      | Finite r \<Rightarrow> Inr (if 0 \<le> r then \<lfloor>r\<rfloor> else \<lceil>r\<rceil>))"

text \<open>Lines 188 to 190, from the two integers on.\<close>

definition uptime_percentage :: "int \<Rightarrow> int \<Rightarrow> error + int" where
  "uptime_percentage total_up_time total_time =
     (case int_true_div total_up_time total_time of
        Inl e \<Rightarrow> Inl e
      | Inr x \<Rightarrow> float_to_int (float_mul x 100))"

section \<open>The calculator and \<^verbatim>\<open>calculate_station_uptime\<close>\<close>

text \<open>
  The two dictionaries of \<^verbatim>\<open>StationUptimeCalculator\<close> are association lists in insertion
  order with distinct keys, read with \<open>map_of\<close>. A station's set of charger ids is the list
  of its elements in the order in which the set is iterated, which Python leaves open.
\<close>

record calculator =
  station_chargers :: "(int \<times> int list) list"
  charger_reports :: "(int \<times> ChargerReport list) list"

text \<open>
  The variables of the loop over the chargers of one station. \<^verbatim>\<open>min_time\<close> starts as
  \<^verbatim>\<open>float('inf')\<close> and \<^verbatim>\<open>max_time\<close> as \<^verbatim>\<open>float('-inf')\<close>: that is \<open>None\<close> here, and every
  integer is below the one and above the other.
\<close>

record station_acc =
  min_time :: "int option"
  max_time :: "int option"
  has_reports :: bool
  charger_up_intervals :: "(int \<times> interval list) list"

definition init_acc :: station_acc where
  "init_acc = \<lparr>min_time = None, max_time = None, has_reports = False,
               charger_up_intervals = []\<rparr>"

text \<open>Lines 131 to 163: the body of the loop, for one charger id.\<close>

definition process_charger ::
  "(int \<times> ChargerReport list) list \<Rightarrow> station_acc \<Rightarrow> int \<Rightarrow> station_acc" where
  "process_charger creports acc cid =
     (case map_of creports cid of
        None \<Rightarrow> acc
      | Some rs \<Rightarrow>
          let reports = sort_reports rs
          in if reports = [] then acc
             else
               let lo = Min (set (map start_time reports));
                   hi = Max (set (map end_time reports));
                   charger_intervals = reconcile reports
               in acc\<lparr>has_reports := True,
                      min_time := Some (case min_time acc of None \<Rightarrow> lo | Some t \<Rightarrow> min t lo),
                      max_time := Some (case max_time acc of None \<Rightarrow> hi | Some t \<Rightarrow> max t hi),
                      charger_up_intervals :=
                        (if charger_intervals = [] then charger_up_intervals acc
                         else AList.update cid charger_intervals (charger_up_intervals acc))\<rparr>)"

text \<open>
  Lines 120 to 191 for one station: the percentage appended to \<^verbatim>\<open>results\<close>. With
  \<open>has_reports\<close> set both bounds are integers, so the last case does not arise
  (lemma \<open>has_reports_bounds\<close>).
\<close>

definition station_uptime :: "(int \<times> ChargerReport list) list \<Rightarrow> int list \<Rightarrow> error + int" where
  "station_uptime creports charger_ids =
     (let acc = foldl (process_charger creports) init_acc charger_ids
      in if \<not> has_reports acc then Inr 0
         else case (min_time acc, max_time acc) of
           (Some lo, Some hi) \<Rightarrow>
             if lo = hi then
               Inr (if (\<exists>intervals \<in> set (map snd (charger_up_intervals acc)).
                          \<exists>(start, end) \<in> set intervals. start \<le> lo \<and> lo \<le> end)
                    then 100 else 0)
             else
               let all_intervals = concat (map snd (charger_up_intervals acc));
                   merged_intervals = merge_intervals all_intervals;
                   total_up_time = (\<Sum>(start, end) \<leftarrow> merged_intervals. end - start);
                   total_time = hi - lo
               in uptime_percentage total_up_time total_time
         | _ \<Rightarrow> Inr 0)"

text \<open>The loop over the sorted station ids; an exception ends it.\<close>

fun station_loop ::
  "calculator \<Rightarrow> int list \<Rightarrow> (int \<times> int) list \<Rightarrow> error + (int \<times> int) list" where
  "station_loop c [] results = Inr results"
| "station_loop c (station_id # rest) results =
     (case map_of (station_chargers c) station_id of
        None \<Rightarrow> Inl KeyError
      | Some charger_ids \<Rightarrow>
          (case station_uptime (charger_reports c) charger_ids of
             Inl e \<Rightarrow> Inl e
           | Inr p \<Rightarrow> station_loop c rest (results @ [(station_id, p)])))"

definition calculate_station_uptime :: "calculator \<Rightarrow> error + (int \<times> int) list" where
  "calculate_station_uptime c = station_loop c (sort (map fst (station_chargers c))) []"

section \<open>The parser (\<^verbatim>\<open>parse_input_file\<close>)\<close>

text \<open>
  Python's string methods, on strings of 8-bit characters. \<open>is_space\<close> is \<^verbatim>\<open>str.isspace\<close> on
  one character: the characters that \<^verbatim>\<open>strip()\<close> removes and that the \<^verbatim>\<open>split()\<close> without
  argument separates at.
\<close>

definition is_space :: "char \<Rightarrow> bool" where
  "is_space c \<longleftrightarrow>
     c \<in> {CHR 0x09, CHR 0x0A, CHR 0x0B, CHR 0x0C, CHR 0x0D, CHR 0x1C, CHR 0x1D, CHR 0x1E,
          CHR 0x1F, CHR 0x20, CHR 0x85, CHR 0xA0}"

text \<open>
  \<^verbatim>\<open>s.strip()\<close>: the whitespace at both ends removed.
\<close>

definition strip :: "string \<Rightarrow> string" where
  "strip s = rev (dropWhile is_space (rev (dropWhile is_space s)))"

text \<open>
  \<^verbatim>\<open>s.split(sep)\<close> for a separator of one character: the pieces between the separators,
  empty pieces kept; the result is never empty.
\<close>

function split_on :: "char \<Rightarrow> string \<Rightarrow> string list" where
  "split_on sep s =
     (case dropWhile (\<lambda>c. c \<noteq> sep) s of
        [] \<Rightarrow> [s]
      | _ # rest \<Rightarrow> takeWhile (\<lambda>c. c \<noteq> sep) s # split_on sep rest)"
  by pat_completeness auto
termination
proof (relation "measure (\<lambda>(sep, s). length s)")
  show "wf (measure (\<lambda>(sep, s). length s))" by simp
next
  fix sep :: char and s :: string and x rest
  assume "dropWhile (\<lambda>c. c \<noteq> sep) s = x # rest"
  then have "length (x # rest) \<le> length s" by (metis length_dropWhile_le)
  then show "((sep, rest), (sep, s)) \<in> measure (\<lambda>(sep, s). length s)" by simp
qed

text \<open>
  \<^verbatim>\<open>s.split()\<close>: the maximal runs of characters that are not whitespace.
\<close>

function split_ws :: "string \<Rightarrow> string list" where
  "split_ws s =
     (case dropWhile is_space s of
        [] \<Rightarrow> []
      | c # cs \<Rightarrow> takeWhile (\<lambda>c. \<not> is_space c) (c # cs)
                 # split_ws (dropWhile (\<lambda>c. \<not> is_space c) cs))"
  by pat_completeness auto
termination
proof (relation "measure length")
  show "wf (measure length)" by simp
next
  fix s :: string and c cs
  assume "dropWhile is_space s = c # cs"
  then have "length (c # cs) \<le> length s" by (metis length_dropWhile_le)
  moreover have "length (dropWhile (\<lambda>c. \<not> is_space c) cs) \<le> length cs"
    by (rule length_dropWhile_le)
  ultimately show "(dropWhile (\<lambda>c. \<not> is_space c) cs, s) \<in> measure length" by simp
qed

declare split_on.simps [simp del] split_ws.simps [simp del]

text \<open>
  \<^verbatim>\<open>s.lower()\<close>: the letters \<open>A\<close> to \<open>Z\<close>, and the capital letters of Latin-1, moved to
  their lower case.
\<close>

definition lower_char :: "char \<Rightarrow> char" where
  "lower_char c =
     (let n = of_char c :: nat
      in if (65 \<le> n \<and> n \<le> 90) \<or> (192 \<le> n \<and> n \<le> 222 \<and> n \<noteq> 215)
         then char_of (n + 32) else c)"

definition lower :: "string \<Rightarrow> string" where
  "lower s = map lower_char s"

text \<open>
  \<^verbatim>\<open>xs.index(x)\<close>: the first position of \<open>x\<close>; \<open>None\<close> where Python raises \<^verbatim>\<open>ValueError\<close>.
\<close>

fun index_of :: "'a list \<Rightarrow> 'a \<Rightarrow> nat option" where
  "index_of [] x = None"
| "index_of (y # ys) x = (if y = x then Some 0 else map_option Suc (index_of ys x))"

text \<open>
  The calculator after \<^verbatim>\<open>__init__\<close>: two empty dictionaries.
\<close>

definition empty_calculator :: calculator where
  "empty_calculator = \<lparr>station_chargers = [], charger_reports = []\<rparr>"

text \<open>
  Lines 75 to 78: the report is appended to the list of its charger, which is created
  when the charger has none. \<open>AList.update\<close> replaces the value of a key in place and puts a
  new key at the end, as a Python dictionary does.
\<close>

definition add_report :: "ChargerReport \<Rightarrow> calculator \<Rightarrow> calculator" where
  "add_report report c =
     c\<lparr>charger_reports :=
         AList.update (charger_id report)
           ((case map_of (charger_reports c) (charger_id report) of
               None \<Rightarrow> [] | Some reports \<Rightarrow> reports) @ [report])
           (charger_reports c)\<rparr>"

text \<open>
  Lines 49 to 56, the loop over the lines of the stations section. The builtin \<^verbatim>\<open>int\<close> is
  the parameter \<open>to_int\<close>: \<open>None\<close> where \<^verbatim>\<open>int\<close> raises \<^verbatim>\<open>ValueError\<close>. A blank line is
  skipped. The result is the error raised, if any, and the calculator as the loop left it;
  \<^verbatim>\<open>set(map(int, parts[1:]))\<close> fails at the first field that is no integer, and the set is
  kept as the list of its elements without repetition.
\<close>

fun parse_stations ::
  "(string \<Rightarrow> int option) \<Rightarrow> string list \<Rightarrow> calculator \<Rightarrow> error option \<times> calculator" where
  "parse_stations to_int [] c = (None, c)"
| "parse_stations to_int (line # rest) c =
     (if strip line = [] then parse_stations to_int rest c
      else
        let parts = split_ws line
        in if length parts < 2 then (Some ValueError, c)
           else
             (case to_int (hd parts) of
                None \<Rightarrow> (Some ValueError, c)
              | Some station_id \<Rightarrow>
                  (case those (map to_int (tl parts)) of
                     None \<Rightarrow> (Some ValueError, c)
                   | Some charger_ids \<Rightarrow>
                       parse_stations to_int rest
                         (c\<lparr>station_chargers :=
                              AList.update station_id (remdups charger_ids)
                                (station_chargers c)\<rparr>))))"

text \<open>
  Lines 59 to 78, the loop over the lines of the reports section.
\<close>

fun parse_reports ::
  "(string \<Rightarrow> int option) \<Rightarrow> string list \<Rightarrow> calculator \<Rightarrow> error option \<times> calculator" where
  "parse_reports to_int [] c = (None, c)"
| "parse_reports to_int (line # rest) c =
     (if strip line = [] then parse_reports to_int rest c
      else
        let parts = split_ws line
        in if length parts \<noteq> 4 then (Some ValueError, c)
           else
             (case to_int (parts ! 0) of
                None \<Rightarrow> (Some ValueError, c)
              | Some cid \<Rightarrow>
                  (case to_int (parts ! 1) of
                     None \<Rightarrow> (Some ValueError, c)
                   | Some start \<Rightarrow>
                       (case to_int (parts ! 2) of
                          None \<Rightarrow> (Some ValueError, c)
                        | Some end \<Rightarrow>
                            let up = (lower (parts ! 3) = ''true'')
                            in if start > end then (Some ValueError, c)
                               else parse_reports to_int rest
                                      (add_report
                                         \<lparr>charger_id = cid, start_time = start,
                                            end_time = end, is_up = up\<rparr> c)))))"

text \<open>
  The slices \<^verbatim>\<open>content[stations_start + 1:reports_start]\<close> and
  \<^verbatim>\<open>content[reports_start + 1:]\<close>; the first is empty when the reports marker is not
  after the stations marker.
\<close>

definition stations_section :: "string list \<Rightarrow> nat \<Rightarrow> nat \<Rightarrow> string list" where
  "stations_section content stations_start reports_start =
     take (reports_start - (stations_start + 1)) (drop (stations_start + 1) content)"

definition reports_section :: "string list \<Rightarrow> nat \<Rightarrow> string list" where
  "reports_section content reports_start = drop (reports_start + 1) content"

text \<open>
  \<^verbatim>\<open>parse_input_file\<close>. The argument \<open>src\<close> is what \<^verbatim>\<open>open\<close> and \<^verbatim>\<open>read\<close> give: the text
  of the file, or \<open>None\<close> when they raise \<^verbatim>\<open>IOError\<close>. Every exception of the body is caught
  by the outer handler and raised again as \<^verbatim>\<open>ValueError\<close>.
\<close>

definition parse_input_file ::
  "(string \<Rightarrow> int option) \<Rightarrow> string option \<Rightarrow> calculator \<Rightarrow> error option \<times> calculator" where
  "parse_input_file to_int src c =
     (case src of
        None \<Rightarrow> (Some ValueError, c)
      | Some text \<Rightarrow>
          let content = split_on CHR 0x0A (strip text)
          in (case index_of content ''[Stations]'' of
                None \<Rightarrow> (Some ValueError, c)
              | Some stations_start \<Rightarrow>
                  (case index_of content ''[Charger Availability Reports]'' of
                     None \<Rightarrow> (Some ValueError, c)
                   | Some reports_start \<Rightarrow>
                       (case parse_stations to_int
                               (stations_section content stations_start reports_start) c of
                          (Some e, c') \<Rightarrow> (Some ValueError, c')
                        | (None, c') \<Rightarrow>
                            (case parse_reports to_int
                                    (reports_section content reports_start) c' of
                               (Some e, c'') \<Rightarrow> (Some ValueError, c'')
                             | (None, c'') \<Rightarrow> (None, c''))))))"

section \<open>The calculator with its lists in a store\<close>

text \<open>
  A second embedding of \<^verbatim>\<open>calculate_station_uptime\<close> and \<^verbatim>\<open>_merge_intervals\<close>, for the
  question which objects the function changes. A Python list is an object: the store maps
  the address of a list of reports and the address of a list of integer pairs (intervals,
  result pairs) to its current elements, and the two counters are the first addresses not
  yet allocated. The dictionary \<^verbatim>\<open>charger_reports\<close> of the calculator holds the addresses of
  the report lists. The function only reads the two dictionaries and the sets of charger
  ids, which therefore stay values.
\<close>

record store =
  report_lists :: "nat \<Rightarrow> ChargerReport list"
  tuple_lists :: "nat \<Rightarrow> (int \<times> int) list"
  next_report_list :: nat
  next_tuple_list :: nat

record calculator_obj =
  station_sets :: "(int \<times> int list) list"
  report_refs :: "(int \<times> nat) list"

text \<open>
  A new list object (\<^verbatim>\<open>[]\<close>, \<^verbatim>\<open>[x]\<close>, the result of \<^verbatim>\<open>sorted\<close>) gets the next free address.
\<close>

definition new_report_list :: "ChargerReport list \<Rightarrow> store \<Rightarrow> nat \<times> store" where
  "new_report_list xs s =
     (next_report_list s,
      s\<lparr>report_lists := (report_lists s)(next_report_list s := xs),
        next_report_list := next_report_list s + 1\<rparr>)"

definition new_tuple_list :: "(int \<times> int) list \<Rightarrow> store \<Rightarrow> nat \<times> store" where
  "new_tuple_list xs s =
     (next_tuple_list s,
      s\<lparr>tuple_lists := (tuple_lists s)(next_tuple_list s := xs),
        next_tuple_list := next_tuple_list s + 1\<rparr>)"

text \<open>
  The operations that change a list in place: \<^verbatim>\<open>xs.append(x)\<close>, \<^verbatim>\<open>xs.extend(ys)\<close>,
  \<^verbatim>\<open>xs.sort()\<close> and \<^verbatim>\<open>xs[-1] = x\<close>.
\<close>

definition list_append :: "nat \<Rightarrow> int \<times> int \<Rightarrow> store \<Rightarrow> store" where
  "list_append a x s = s\<lparr>tuple_lists := (tuple_lists s)(a := tuple_lists s a @ [x])\<rparr>"

definition list_extend :: "nat \<Rightarrow> nat \<Rightarrow> store \<Rightarrow> store" where
  "list_extend a b s = s\<lparr>tuple_lists := (tuple_lists s)(a := tuple_lists s a @ tuple_lists s b)\<rparr>"

definition list_sort :: "nat \<Rightarrow> store \<Rightarrow> store" where
  "list_sort a s = s\<lparr>tuple_lists := (tuple_lists s)(a := sort (tuple_lists s a))\<rparr>"

definition list_set_last :: "nat \<Rightarrow> int \<times> int \<Rightarrow> store \<Rightarrow> store" where
  "list_set_last a x s = s\<lparr>tuple_lists := (tuple_lists s)(a := butlast (tuple_lists s a) @ [x])\<rparr>"

text \<open>
  \<^verbatim>\<open>_merge_intervals\<close>: the argument is sorted in place, \<^verbatim>\<open>merged\<close> is a new list; the
  loop runs over the copy \<^verbatim>\<open>intervals[1:]\<close>.
\<close>

definition merge_step_st :: "nat \<Rightarrow> store \<Rightarrow> interval \<Rightarrow> store" where
  "merge_step_st merged s interval =
     (let last_merged = last (tuple_lists s merged)
      in if fst interval \<le> snd last_merged
         then list_set_last merged (fst last_merged, max (snd last_merged) (snd interval)) s
         else list_append merged interval s)"

definition merge_intervals_st :: "nat \<Rightarrow> store \<Rightarrow> nat \<times> store" where
  "merge_intervals_st intervals s =
     (if tuple_lists s intervals = [] then new_tuple_list [] s
      else
        let s1 = list_sort intervals s;
            (merged, s2) = new_tuple_list [hd (tuple_lists s1 intervals)] s1
        in (merged, foldl (merge_step_st merged) s2 (tl (tuple_lists s2 intervals))))"

text \<open>
  Lines 143 to 160. The variable \<^verbatim>\<open>charger_intervals\<close> holds an address; an up report
  appends to the list there, a down report fills the new list \<^verbatim>\<open>new_intervals\<close>, to which
  the variable is then bound.
\<close>

definition apply_report_st :: "nat \<times> store \<Rightarrow> ChargerReport \<Rightarrow> nat \<times> store" where
  "apply_report_st v r =
     (case v of (charger_intervals, s) \<Rightarrow>
        if is_up r
        then (charger_intervals, list_append charger_intervals (start_time r, end_time r) s)
        else
          let (new_intervals, s1) = new_tuple_list [] s
          in (new_intervals,
              foldl (\<lambda>s iv. foldl (\<lambda>s x. list_append new_intervals x s) s
                                (split_interval (start_time r) (end_time r) iv))
                s1 (tuple_lists s1 charger_intervals)))"

text \<open>
  The variables of the loop over the chargers; the dictionary \<^verbatim>\<open>charger_up_intervals\<close> holds
  addresses of interval lists.
\<close>

record station_vars =
  min_time_var :: "int option"
  max_time_var :: "int option"
  has_reports_var :: bool
  charger_up_refs :: "(int \<times> nat) list"

definition init_vars :: station_vars where
  "init_vars = \<lparr>min_time_var = None, max_time_var = None, has_reports_var = False,
                charger_up_refs = []\<rparr>"

definition process_charger_st ::
  "(int \<times> nat) list \<Rightarrow> station_vars \<times> store \<Rightarrow> int \<Rightarrow> station_vars \<times> store" where
  "process_charger_st refs v cid =
     (case v of (vars, s) \<Rightarrow>
        (case map_of refs cid of
           None \<Rightarrow> (vars, s)
         | Some stored \<Rightarrow>
             let (reports, s1) =
                   new_report_list
                     (sort_key (\<lambda>x. (start_time x, \<not> is_up x)) (report_lists s stored)) s;
                 rs = report_lists s1 reports
             in if rs = [] then (vars, s1)
                else
                  let lo = Min (set (map start_time rs));
                      hi = Max (set (map end_time rs));
                      (charger_intervals, s2) = new_tuple_list [] s1;
                      (charger_intervals', s3) = foldl apply_report_st (charger_intervals, s2) rs
                  in (vars\<lparr>has_reports_var := True,
                            min_time_var :=
                              Some (case min_time_var vars of None \<Rightarrow> lo | Some t \<Rightarrow> min t lo),
                            max_time_var :=
                              Some (case max_time_var vars of None \<Rightarrow> hi | Some t \<Rightarrow> max t hi),
                            charger_up_refs :=
                              (if tuple_lists s3 charger_intervals' = [] then charger_up_refs vars
                               else AList.update cid charger_intervals' (charger_up_refs vars))\<rparr>,
                      s3)))"

definition station_uptime_st ::
  "(int \<times> nat) list \<Rightarrow> int list \<Rightarrow> store \<Rightarrow> (error + int) \<times> store" where
  "station_uptime_st refs charger_ids s =
     (let (vars, s1) = foldl (process_charger_st refs) (init_vars, s) charger_ids
      in if \<not> has_reports_var vars then (Inr 0, s1)
         else case (min_time_var vars, max_time_var vars) of
           (Some lo, Some hi) \<Rightarrow>
             if lo = hi then
               (Inr (if (\<exists>intervals \<in> set (map snd (charger_up_refs vars)).
                           \<exists>(start, end) \<in> set (tuple_lists s1 intervals). start \<le> lo \<and> lo \<le> end)
                     then 100 else 0), s1)
             else
               let (all_intervals, s2) = new_tuple_list [] s1;
                   s3 = foldl (\<lambda>s intervals. list_extend all_intervals intervals s) s2
                          (map snd (charger_up_refs vars));
                   (merged_intervals, s4) = merge_intervals_st all_intervals s3;
                   total_up_time = (\<Sum>(start, end) \<leftarrow> tuple_lists s4 merged_intervals. end - start);
                   total_time = hi - lo
               in (uptime_percentage total_up_time total_time, s4)
         | _ \<Rightarrow> (Inr 0, s1))"

text \<open>
  The loop over the stations appends to the list \<^verbatim>\<open>results\<close>, which the function returns.
\<close>

fun station_loop_st ::
  "calculator_obj \<Rightarrow> int list \<Rightarrow> nat \<Rightarrow> store \<Rightarrow> (error + (int \<times> int) list) \<times> store" where
  "station_loop_st c [] results s = (Inr (tuple_lists s results), s)"
| "station_loop_st c (station_id # rest) results s =
     (case map_of (station_sets c) station_id of
        None \<Rightarrow> (Inl KeyError, s)
      | Some charger_ids \<Rightarrow>
          (case station_uptime_st (report_refs c) charger_ids s of
             (Inl e, s1) \<Rightarrow> (Inl e, s1)
           | (Inr p, s1) \<Rightarrow> station_loop_st c rest results (list_append results (station_id, p) s1)))"

definition calculate_station_uptime_st ::
  "calculator_obj \<Rightarrow> store \<Rightarrow> (error + (int \<times> int) list) \<times> store" where
  "calculate_station_uptime_st c s =
     (let (results, s1) = new_tuple_list [] s
      in station_loop_st c (sort (map fst (station_sets c))) results s1)"

section \<open>Notions for the statements and the proofs\<close>

text \<open>
  The loop of the merge, read with the last element of the accumulator held apart.
\<close>

fun merge_from :: "interval \<Rightarrow> interval list \<Rightarrow> interval list" where
  "merge_from cur [] = [cur]"
| "merge_from cur (iv # rest) =
     (if fst iv \<le> snd cur then merge_from (fst cur, max (snd cur) (snd iv)) rest
      else cur # merge_from iv rest)"

text \<open>
  The exponent of the spacing of the binary64 numbers around \<open>x\<close>, and the percentage
  that the float computation gives when nothing overflows.
\<close>

definition quantum_exp :: "rat \<Rightarrow> int" where
  "quantum_exp x = max (ilog2 x - 52) (- 1074)"

definition percent_of :: "int \<Rightarrow> int \<Rightarrow> int" where
  "percent_of a b = \<lfloor>binary64 (binary64 (of_int a / of_int b) * 100)\<rfloor>"

text \<open>
  Times are integers, so an interval \<open>(a, b)\<close> covers the unit cells \<open>[k, k + 1)\<close> with
  \<open>a \<le> k < b\<close>; \<open>cells\<close> is the set of cells that a list of intervals covers. An interval
  is well formed when its start is at most its end, and \<open>total_length\<close> is the sum that
  line 188 computes.
\<close>

definition cells :: "interval list \<Rightarrow> int set" where
  "cells ivs = (\<Union>(a, b) \<in> set ivs. {a..<b})"

definition well_formed_intervals :: "interval list \<Rightarrow> bool" where
  "well_formed_intervals ivs = (\<forall>iv \<in> set ivs. fst iv \<le> snd iv)"

definition total_length :: "interval list \<Rightarrow> int" where
  "total_length ivs = (\<Sum>(start, end) \<leftarrow> ivs. end - start)"

text \<open>
  What a station's loop over its chargers sees: the raw reports of a charger (none for a
  charger without an entry), its confirmed-up intervals, and, over all chargers of the
  station, the set of raw reports and the set of covered cells.
\<close>

definition reports_of :: "(int \<times> ChargerReport list) list \<Rightarrow> int \<Rightarrow> ChargerReport list" where
  "reports_of creports cid = (case map_of creports cid of None \<Rightarrow> [] | Some rs \<Rightarrow> rs)"

definition up_intervals_of :: "(int \<times> ChargerReport list) list \<Rightarrow> int \<Rightarrow> interval list" where
  "up_intervals_of creports cid = reconcile (sort_reports (reports_of creports cid))"

definition station_reports :: "(int \<times> ChargerReport list) list \<Rightarrow> int list \<Rightarrow> ChargerReport set" where
  "station_reports creports cids = (\<Union>cid \<in> set cids. set (reports_of creports cid))"

definition station_cells :: "(int \<times> ChargerReport list) list \<Rightarrow> int list \<Rightarrow> int set" where
  "station_cells creports cids = (\<Union>cid \<in> set cids. cells (up_intervals_of creports cid))"

text \<open>
  The state of the loop after the chargers \<open>cids\<close>, in these terms.
\<close>

definition acc_inv :: "(int \<times> ChargerReport list) list \<Rightarrow> int list \<Rightarrow> station_acc \<Rightarrow> bool" where
  "acc_inv creports cids acc \<longleftrightarrow>
     has_reports acc = (station_reports creports cids \<noteq> {}) \<and>
     min_time acc = (if station_reports creports cids = {} then None
                     else Some (Min (start_time ` station_reports creports cids))) \<and>
     max_time acc = (if station_reports creports cids = {} then None
                     else Some (Max (end_time ` station_reports creports cids))) \<and>
     distinct (map fst (charger_up_intervals acc)) \<and>
     map_of (charger_up_intervals acc) =
       (\<lambda>cid. if cid \<in> set cids \<and> up_intervals_of creports cid \<noteq> []
              then Some (up_intervals_of creports cid) else None)"

text \<open>
  The invariant of the data model: every report has its start at most its end.
\<close>

definition well_formed_reports :: "ChargerReport set \<Rightarrow> bool" where
  "well_formed_reports R = (\<forall>r \<in> R. start_time r \<le> end_time r)"

definition well_formed :: "calculator \<Rightarrow> bool" where
  "well_formed c =
     (\<forall>(cid, rs) \<in> set (charger_reports c). \<forall>r \<in> set rs. start_time r \<le> end_time r)"

text \<open>
  Malformed input, in the words of the specification: a non-blank line of the stations
  section with fewer than two fields or with a field that is no integer; a non-blank line
  of the reports section without exactly four fields, with a charger id or a time that is no
  integer, or with its start after its end; a missing section marker; a file that cannot be
  read.
\<close>

definition bad_station_line :: "(string \<Rightarrow> int option) \<Rightarrow> string \<Rightarrow> bool" where
  "bad_station_line to_int line \<longleftrightarrow>
     strip line \<noteq> [] \<and>
     (length (split_ws line) < 2 \<or> (\<exists>field \<in> set (split_ws line). to_int field = None))"

definition bad_report_line :: "(string \<Rightarrow> int option) \<Rightarrow> string \<Rightarrow> bool" where
  "bad_report_line to_int line \<longleftrightarrow>
     strip line \<noteq> [] \<and>
     (length (split_ws line) \<noteq> 4 \<or>
      (\<exists>i < 3. to_int (split_ws line ! i) = None) \<or>
      (\<exists>start end. to_int (split_ws line ! 1) = Some start \<and>
                    to_int (split_ws line ! 2) = Some end \<and> start > end))"

definition malformed :: "(string \<Rightarrow> int option) \<Rightarrow> string option \<Rightarrow> bool" where
  "malformed to_int src \<longleftrightarrow>
     (case src of
        None \<Rightarrow> True
      | Some text \<Rightarrow>
          let content = split_on CHR 0x0A (strip text)
          in (case (index_of content ''[Stations]'',
                    index_of content ''[Charger Availability Reports]'') of
                (Some stations_start, Some reports_start) \<Rightarrow>
                  (\<exists>line \<in> set (stations_section content stations_start reports_start).
                      bad_station_line to_int line) \<or>
                  (\<exists>line \<in> set (reports_section content reports_start).
                      bad_report_line to_int line)
              | _ \<Rightarrow> True))"

text \<open>
  An instance of the parameter \<open>to_int\<close> for concrete inputs: \<^verbatim>\<open>int\<close> on a string of decimal
  digits with an optional sign.
\<close>

definition digit_value :: "char \<Rightarrow> nat option" where
  "digit_value c =
     (let n = of_char c :: nat in if 48 \<le> n \<and> n \<le> 57 then Some (n - 48) else None)"

definition decimal_nat :: "string \<Rightarrow> int option" where
  "decimal_nat s =
     (if s = [] then None
      else map_option (\<lambda>ds. int (foldl (\<lambda>n d. 10 * n + d) 0 ds)) (those (map digit_value s)))"

definition decimal :: "string \<Rightarrow> int option" where
  "decimal s =
     (case s of
        [] \<Rightarrow> None
      | c # cs \<Rightarrow>
          if c = CHR ''-'' then map_option uminus (decimal_nat cs)
          else if c = CHR ''+'' then decimal_nat cs
          else decimal_nat s)"

text \<open>
  The dataset that a calculator object denotes in a store, and a store without objects.
\<close>

definition creports_of :: "(int \<times> nat) list \<Rightarrow> store \<Rightarrow> (int \<times> ChargerReport list) list" where
  "creports_of refs s = map (\<lambda>(cid, stored). (cid, report_lists s stored)) refs"

definition calculator_of :: "calculator_obj \<Rightarrow> store \<Rightarrow> calculator" where
  "calculator_of c s =
     \<lparr>station_chargers = station_sets c,
      charger_reports = map (\<lambda>(cid, stored). (cid, report_lists s stored)) (report_refs c)\<rparr>"

definition empty_store :: store where
  "empty_store = \<lparr>report_lists = (\<lambda>a. []), tuple_lists = (\<lambda>a. []),
                  next_report_list = 0, next_tuple_list = 0\<rparr>"

text \<open>
  The report lists of the calculator are allocated. \<open>frame W s s'\<close>: from \<open>s\<close> to \<open>s'\<close>
  the counters have not decreased, and every list object allocated in \<open>s\<close> is unchanged,
  except the pair lists at the addresses in \<open>W\<close>. \<open>vars_rel\<close> relates the loop variables of
  the two embeddings.
\<close>

definition refs_valid :: "(int \<times> nat) list \<Rightarrow> store \<Rightarrow> bool" where
  "refs_valid refs s \<longleftrightarrow> (\<forall>stored \<in> snd ` set refs. stored < next_report_list s)"

definition frame :: "nat set \<Rightarrow> store \<Rightarrow> store \<Rightarrow> bool" where
  "frame W s s' \<longleftrightarrow>
     next_report_list s \<le> next_report_list s' \<and> next_tuple_list s \<le> next_tuple_list s' \<and>
     (\<forall>a < next_report_list s. report_lists s' a = report_lists s a) \<and>
     (\<forall>a < next_tuple_list s. a \<notin> W \<longrightarrow> tuple_lists s' a = tuple_lists s a)"

definition vars_rel :: "store \<Rightarrow> station_vars \<Rightarrow> station_acc \<Rightarrow> bool" where
  "vars_rel s vars acc \<longleftrightarrow>
     min_time acc = min_time_var vars \<and> max_time acc = max_time_var vars \<and>
     has_reports acc = has_reports_var vars \<and>
     charger_up_intervals acc = map (\<lambda>(cid, a). (cid, tuple_lists s a)) (charger_up_refs vars) \<and>
     (\<forall>a \<in> snd ` set (charger_up_refs vars). a < next_tuple_list s)"

section \<open>Properties of the merge\<close>

lemma foldl_merge_step:
  "foldl merge_step (pre @ [cur]) xs = pre @ merge_from cur xs"
proof (induction xs arbitrary: pre cur)
  case Nil
  show ?case by simp
next
  case (Cons iv rest)
  show ?case
  proof (cases "fst iv \<le> snd cur")
    case True
    then have "merge_step (pre @ [cur]) iv = pre @ [(fst cur, max (snd cur) (snd iv))]"
      by (simp add: merge_step_def)
    then show ?thesis using True Cons.IH [of pre] by simp
  next
    case False
    then have "merge_step (pre @ [cur]) iv = (pre @ [cur]) @ [iv]"
      by (simp add: merge_step_def)
    then show ?thesis using False Cons.IH [of "pre @ [cur]" iv] by simp
  qed
qed

lemma merge_intervals_sorted:
  "merge_intervals xs = (case sort xs of [] \<Rightarrow> [] | cur # rest \<Rightarrow> merge_from cur rest)"
proof (cases xs)
  case Nil
  then show ?thesis by (simp add: merge_intervals_def)
next
  case (Cons x xs')
  then have ne: "sort xs \<noteq> []" by (metis list.distinct(1) set_empty2 set_sort)
  then obtain cur rest where s: "sort xs = cur # rest" by (cases "sort xs") auto
  have "foldl merge_step ([] @ [cur]) rest = [] @ merge_from cur rest"
    by (rule foldl_merge_step)
  then show ?thesis using Cons s by (simp add: merge_intervals_def Let_def)
qed


lemma fst_merge_from: "fst ` set (merge_from cur rest) \<subseteq> insert (fst cur) (fst ` set rest)"
proof (induction rest arbitrary: cur)
  case Nil
  show ?case by simp
next
  case (Cons iv rest)
  show ?case
  proof (cases "fst iv \<le> snd cur")
    case True
    then show ?thesis using Cons.IH [of "(fst cur, max (snd cur) (snd iv))"] by auto
  next
    case False
    then show ?thesis using Cons.IH [of iv] by auto
  qed
qed

lemma merge_from_separated:
  "sorted (map fst (cur # rest)) \<Longrightarrow> sorted_wrt (\<lambda>x y. snd x < fst y) (merge_from cur rest)"
proof (induction rest arbitrary: cur)
  case Nil
  show ?case by simp
next
  case (Cons iv rest)
  show ?case
  proof (cases "fst iv \<le> snd cur")
    case True
    have "sorted (map fst ((fst cur, max (snd cur) (snd iv)) # rest))"
      using Cons.prems by auto
    then show ?thesis using True Cons.IH by simp
  next
    case False
    have s: "sorted (map fst (iv # rest))" using Cons.prems by simp
    have "\<forall>y \<in> set (merge_from iv rest). snd cur < fst y"
    proof
      fix y assume "y \<in> set (merge_from iv rest)"
      then have "fst y \<in> insert (fst iv) (fst ` set rest)"
        using fst_merge_from [of iv rest] by blast
      then have "fst iv \<le> fst y" using s by auto
      then show "snd cur < fst y" using False by simp
    qed
    then show ?thesis using False Cons.IH [OF s] by simp
  qed
qed

lemma merge_from_sorted_fst:
  "sorted (map fst (cur # rest)) \<Longrightarrow> sorted (map fst (merge_from cur rest))"
proof (induction rest arbitrary: cur)
  case Nil
  show ?case by simp
next
  case (Cons iv rest)
  show ?case
  proof (cases "fst iv \<le> snd cur")
    case True
    have "sorted (map fst ((fst cur, max (snd cur) (snd iv)) # rest))"
      using Cons.prems by auto
    then show ?thesis using True Cons.IH by simp
  next
    case False
    have s: "sorted (map fst (iv # rest))" using Cons.prems by simp
    have "\<forall>y \<in> set (merge_from iv rest). fst cur \<le> fst y"
    proof
      fix y assume "y \<in> set (merge_from iv rest)"
      then have "fst y \<in> insert (fst iv) (fst ` set rest)"
        using fst_merge_from [of iv rest] by blast
      then show "fst cur \<le> fst y" using Cons.prems by auto
    qed
    then show ?thesis using False Cons.IH [OF s] by simp
  qed
qed

lemma sorted_map_fst: "sorted (xs :: interval list) \<Longrightarrow> sorted (map fst xs)"
  by (induction xs) (auto simp: less_eq_prod_def)

lemma merge_intervals_separated:
  "sorted_wrt (\<lambda>x y. snd x < fst y) (merge_intervals xs)"
proof (cases "sort xs")
  case Nil
  then show ?thesis by (simp add: merge_intervals_sorted)
next
  case (Cons cur rest)
  have "sorted (map fst (sort xs))" by (rule sorted_map_fst) simp
  then show ?thesis using Cons merge_from_separated [of cur rest]
    by (simp add: merge_intervals_sorted)
qed

lemma merge_intervals_sorted_fst: "sorted (map fst (merge_intervals xs))"
proof (cases "sort xs")
  case Nil
  then show ?thesis by (simp add: merge_intervals_sorted)
next
  case (Cons cur rest)
  have "sorted (map fst (sort xs))" by (rule sorted_map_fst) simp
  then show ?thesis using Cons merge_from_sorted_fst [of cur rest]
    by (simp add: merge_intervals_sorted)
qed

lemma sort_pair: "sort [x, y] = (if x \<le> y then [x, y] else [y, x])"
  by simp

lemma merge_pair_in_order:
  assumes "(a :: int) \<le> c" "a \<le> b" "c \<le> d"
  shows "merge_intervals [(a, b), (c, d)] = (if c \<le> b then [(a, max b d)] else [(a, b), (c, d)])"
proof -
  have "(a, b) \<le> (c, d) \<or> (a = c \<and> d < b)"
    using assms by (auto simp: less_eq_prod_def)
  then consider "(a, b) \<le> (c, d)" | "a = c" "d < b" by blast
  then show ?thesis
  proof cases
    case 1
    then have "sort [(a, b), (c, d)] = [(a, b), (c, d)]" by (simp only: sort_pair if_True)
    then show ?thesis by (simp add: merge_intervals_sorted)
  next
    case 2
    then have "\<not> (a, b) \<le> (c, d)" by (auto simp: less_eq_prod_def)
    then have "sort [(a, b), (c, d)] = [(c, d), (a, b)]" by (simp only: sort_pair if_False)
    then show ?thesis using 2 assms by (simp add: merge_intervals_sorted max_def)
  qed
qed

lemma merge_pair_swapped:
  assumes "(a :: int) \<le> c" "a \<le> b" "c \<le> d"
  shows "merge_intervals [(c, d), (a, b)] = (if c \<le> b then [(a, max b d)] else [(a, b), (c, d)])"
proof -
  have "((c, d) \<le> (a, b) \<and> a = c \<and> d \<le> b) \<or> \<not> (c, d) \<le> (a, b)"
    using assms by (auto simp: less_eq_prod_def)
  then consider "(c, d) \<le> (a, b)" "a = c" "d \<le> b" | "\<not> (c, d) \<le> (a, b)" by blast
  then show ?thesis
  proof cases
    case 1
    then have "sort [(c, d), (a, b)] = [(c, d), (a, b)]" by (simp only: sort_pair if_True)
    then show ?thesis using 1 assms by (simp add: merge_intervals_sorted max_def)
  next
    case 2
    then have "sort [(c, d), (a, b)] = [(a, b), (c, d)]" by (simp only: sort_pair if_False)
    then show ?thesis by (simp add: merge_intervals_sorted)
  qed
qed

section \<open>Idempotence of the merge\<close>

lemma merge_from_separated_id:
  "successively (\<lambda>x y. snd x < fst y) (cur # rest) \<Longrightarrow> merge_from cur rest = cur # rest"
proof (induction rest arbitrary: cur)
  case Nil
  show ?case by simp
next
  case (Cons iv rest)
  from Cons.prems have "snd cur < fst iv" and "successively (\<lambda>x y. snd x < fst y) (iv # rest)"
    by simp_all
  then show ?case using Cons.IH [of iv] by simp
qed

lemma separated_sorted:
  assumes wf: "\<forall>iv \<in> set xs. fst iv \<le> snd iv"
    and sep: "successively (\<lambda>x y. snd x < fst y) xs"
  shows "sorted (xs :: interval list)"
proof -
  have "successively (\<lambda>x y. fst x < fst y) xs"
    using wf sep
  proof (induction xs rule: induct_list012)
    case (3 x y zs)
    then show ?case by auto
  qed simp_all
  moreover have "transp (\<lambda>x y :: interval. fst x < fst y)"
    by (auto simp: transp_def)
  ultimately have "sorted_wrt (\<lambda>x y. fst x < fst y) xs"
    by (simp add: successively_conv_sorted_wrt)
  then show ?thesis
    by (rule sorted_wrt_mono_rel [rotated]) (auto simp: less_eq_prod_def)
qed

text \<open>
  Claim C8. The merge is idempotent: a list of intervals (each with start at most end) that
  is sorted by start and in which every interval starts strictly after the end of the one
  before it is returned as it is.
\<close>

theorem merge_intervals_idempotent:
  assumes "\<forall>iv \<in> set xs. fst iv \<le> snd iv"
    and "sorted (map fst xs)"
    and "successively (\<lambda>x y. snd x < fst y) xs"
  shows "merge_intervals xs = xs"
proof (cases xs)
  case Nil
  then show ?thesis by (simp add: merge_intervals_def)
next
  case (Cons cur rest)
  have "sort xs = xs" using separated_sorted [OF assms(1) assms(3)] by (rule sorted_sort_id)
  then show ?thesis using Cons merge_from_separated_id [of cur rest] assms(3)
    by (simp add: merge_intervals_sorted)
qed

theorem merge_intervals_idempotent_witness:
  "merge_intervals [(0, 4), (5, 5), (7, 9)] = [(0, 4), (5, 5), (7, 9)]"
  using merge_intervals_idempotent [of "[(0, 4), (5, 5), (7, 9)]"] by simp


section \<open>Down reports split the running list\<close>

lemma reconcile_snoc: "reconcile (rs @ [r]) = apply_report (reconcile rs) r"
  by (simp add: reconcile_def)

text \<open>
  Claim C4. While one charger is reconciled, a down report \<open>(s, e)\<close> transforms every interval
  \<open>(a, b)\<close> of the running list on its own, in order: it is kept unchanged if \<open>b \<le> s\<close> or
  \<open>a \<ge> e\<close>; otherwise it is replaced by \<open>(a, s)\<close> when \<open>a < s\<close> and by \<open>(e, b)\<close> when
  \<open>b > e\<close>, so that an overlapping interval that lies inside \<open>[s, e]\<close> is removed.
\<close>

theorem down_report_transforms_each_interval:
  assumes "\<not> is_up r"
  shows "reconcile (rs @ [r]) =
           concat (map (split_interval (start_time r) (end_time r)) (reconcile rs))
     \<and> (b \<le> s \<or> a \<ge> e \<longrightarrow> split_interval s e (a, b) = [(a, b)])
     \<and> (\<not> (b \<le> s \<or> a \<ge> e) \<longrightarrow>
          split_interval s e (a, b) =
            (if a < s then [(a, s)] else []) @ (if b > e then [(e, b)] else []))
     \<and> (\<not> (b \<le> s \<or> a \<ge> e) \<and> s \<le> a \<and> b \<le> e \<longrightarrow> split_interval s e (a, b) = [])"
  using assms by (simp add: reconcile_snoc apply_report_def split_interval_def)

theorem down_report_transforms_each_interval_witness:
  "reconcile [\<lparr>charger_id = 1, start_time = 0, end_time = 100, is_up = True\<rparr>,
              \<lparr>charger_id = 1, start_time = 25, end_time = 50, is_up = False\<rparr>]
     = [(0, 25), (50, 100)]
   \<and> split_interval 25 50 (60, 70) = [(60, 70)]
   \<and> split_interval 25 50 (30, 40) = []"
  using down_report_transforms_each_interval
    [of "\<lparr>charger_id = 1, start_time = 25, end_time = 50, is_up = False\<rparr>"
        "[\<lparr>charger_id = 1, start_time = 0, end_time = 100, is_up = True\<rparr>]" 70 25 60 50]
    down_report_transforms_each_interval
    [of "\<lparr>charger_id = 1, start_time = 25, end_time = 50, is_up = False\<rparr>" "[]" 40 25 30 50]
  by (simp add: reconcile_def apply_report_def split_interval_def)

section \<open>Rounding to binary64\<close>


lemma of_int_le_pow2: "(a :: int) \<le> 2 ^ k \<Longrightarrow> (of_int a :: rat) \<le> 2 ^ k"
  by (metis of_int_le_iff of_int_numeral of_int_power)

lemma pow2_le_of_int: "2 ^ k \<le> (a :: int) \<Longrightarrow> (2 ^ k :: rat) \<le> of_int a"
  by (metis of_int_le_iff of_int_numeral of_int_power)

lemma ilog2_bounds:
  assumes "x \<noteq> 0"
  shows "2 powi (ilog2 x) \<le> \<bar>x\<bar>" and "\<bar>x\<bar> < 2 powi (ilog2 x + 1)"
proof -
  define y where "y = \<bar>x\<bar>"
  have ypos: "0 < y" using assms by (simp add: y_def)
  have "2 powi (ilog2 x) \<le> y \<and> y < 2 powi (ilog2 x + 1)"
  proof (cases "1 \<le> y")
    case True
    define n where "n = \<lfloor>y\<rfloor>"
    have npos: "0 < n" using True by (simp add: n_def)
    have il: "ilog2 x = bitlen n - 1" using True by (simp add: ilog2_def y_def n_def Let_def)
    have b1: "1 \<le> bitlen n" using npos by (simp add: bitlen_alt_def)
    from bitlen_bounds [OF npos] have lb: "2 ^ nat (bitlen n - 1) \<le> n" and ub: "n < 2 ^ nat (bitlen n)"
      by simp_all
    have "(2 ^ nat (bitlen n - 1) :: rat) \<le> of_int n" using lb by (rule pow2_le_of_int)
    also have "\<dots> \<le> y" by (simp add: n_def)
    finally have l: "2 powi (bitlen n - 1) \<le> y" using b1 by (simp add: power_int_def)
    have "n + 1 \<le> 2 ^ nat (bitlen n)" using ub by simp
    then have "(of_int (n + 1) :: rat) \<le> 2 ^ nat (bitlen n)" by (rule of_int_le_pow2)
    moreover have "y < of_int (n + 1)" unfolding n_def by linarith
    ultimately have "y < 2 ^ nat (bitlen n)" by (rule less_le_trans [rotated])
    then have u: "y < 2 powi (bitlen n)" using b1 by (simp add: power_int_def)
    show ?thesis using l u il by simp
  next
    case False
    define n where "n = \<lceil>1 / y\<rceil>"
    define k where "k = bitlen (n - 1)"
    have inv: "1 < 1 / y" using False ypos by simp
    then have n2: "2 \<le> n" unfolding n_def by (simp add: less_ceiling_iff)  
    then have n1: "0 < n - 1" by simp
    have il: "ilog2 x = - k" using False by (simp add: ilog2_def y_def n_def k_def Let_def)
    have k1: "1 \<le> k" using n1 by (simp add: k_def bitlen_alt_def)
    from bitlen_bounds [OF n1] have lb: "2 ^ nat (k - 1) \<le> n - 1" and ub: "n - 1 < 2 ^ nat k"
      by (simp_all add: k_def)
    have "n \<le> 2 ^ nat k" using ub by simp
    then have "(of_int n :: rat) \<le> 2 ^ nat k" by (rule of_int_le_pow2)
    moreover have "1 / y \<le> of_int n" by (simp add: n_def)
    ultimately have "1 / y \<le> 2 ^ nat k" by (rule order_trans [rotated])
    then have "1 \<le> 2 ^ nat k * y" using ypos by (simp add: field_simps)
    then have l: "2 powi (- k) \<le> y" using k1 by (simp add: power_int_def field_simps)
    have "(2 ^ nat (k - 1) :: rat) \<le> of_int (n - 1)" using lb by (rule pow2_le_of_int)
    moreover have "of_int (n - 1) < 1 / y" unfolding n_def by linarith
    ultimately have "2 ^ nat (k - 1) < 1 / y" by (rule le_less_trans)
    then have "2 ^ nat (k - 1) * y < 1" using ypos by (simp add: field_simps)
    then have u: "y < 2 powi (- k + 1)" using k1
      by (cases "k = 1") (simp_all add: power_int_def field_simps)
    show ?thesis using l u il by simp
  qed
  then show "2 powi (ilog2 x) \<le> \<bar>x\<bar>" and "\<bar>x\<bar> < 2 powi (ilog2 x + 1)"
    by (simp_all add: y_def)
qed


lemma pow2_le_abs_nonzero:
  assumes "(2 :: rat) powi k \<le> \<bar>x\<bar>"
  shows "x \<noteq> 0"
proof
  assume "x = 0"
  then have "(2 :: rat) powi k \<le> 0" using assms by simp
  moreover have "(0 :: rat) < 2 powi k" by simp
  ultimately show False by linarith
qed

lemma ilog2_eqI:
  assumes "2 powi k \<le> \<bar>x\<bar>" and "\<bar>x\<bar> < 2 powi (k + 1)"
  shows "ilog2 x = k"
proof -
  have nz: "x \<noteq> 0" using assms(1) by (rule pow2_le_abs_nonzero)
  note b = ilog2_bounds [OF nz]
  have "(2 :: rat) powi k < 2 powi (ilog2 x + 1)" using assms(1) b(2) by (rule le_less_trans)
  then have 1: "k < ilog2 x + 1"
    by (metis not_le one_less_numeral_iff power_int_increasing semiring_norm(76) less_imp_le not_less)
  have "(2 :: rat) powi (ilog2 x) < 2 powi (k + 1)" using b(1) assms(2) by (rule le_less_trans)
  then have 2: "ilog2 x < k + 1"
    by (metis not_le one_less_numeral_iff power_int_increasing semiring_norm(76) less_imp_le not_less)
  from 1 2 show ?thesis by simp
qed

lemma ilog2_mono:
  assumes "0 < x" and "x \<le> y"
  shows "ilog2 x \<le> ilog2 y"
proof -
  have nzx: "x \<noteq> 0" and nzy: "y \<noteq> 0" using assms by auto
  have "2 powi (ilog2 x) \<le> \<bar>x\<bar>" by (rule ilog2_bounds [OF nzx])
  also have "\<bar>x\<bar> \<le> \<bar>y\<bar>" using assms by simp
  also have "\<bar>y\<bar> < 2 powi (ilog2 y + 1)" by (rule ilog2_bounds [OF nzy])
  finally have "(2 :: rat) powi (ilog2 x) < 2 powi (ilog2 y + 1)" .
  then have "ilog2 x < ilog2 y + 1"
    by (metis not_le one_less_numeral_iff power_int_increasing semiring_norm(76) less_imp_le not_less)
  then show ?thesis by simp
qed

lemma round_half_even_of_int [simp]: "round_half_even (of_int n) = n"
  by (simp add: round_half_even_def)

lemma round_half_even_ge_floor: "\<lfloor>x\<rfloor> \<le> round_half_even x"
  by (simp add: round_half_even_def Let_def)

lemma round_half_even_le_floor: "round_half_even x \<le> \<lfloor>x\<rfloor> + 1"
  by (simp add: round_half_even_def Let_def)

lemma round_half_even_mono:
  assumes "x \<le> y"
  shows "round_half_even x \<le> round_half_even y"
proof (cases "\<lfloor>x\<rfloor> = \<lfloor>y\<rfloor>")
  case True
  then show ?thesis using assms by (auto simp: round_half_even_def Let_def)
next
  case False
  then have "\<lfloor>x\<rfloor> + 1 \<le> \<lfloor>y\<rfloor>" using floor_mono [OF assms] by simp
  then show ?thesis
    using round_half_even_le_floor [of x] round_half_even_ge_floor [of y] by linarith
qed

lemma round_le_grid:
  assumes "0 < q" and "x \<le> of_int N * q"
  shows "of_int (round_half_even (x / q)) * q \<le> of_int N * q"
proof -
  have "x / q \<le> of_int N" using assms by (simp add: field_simps)
  then have "round_half_even (x / q) \<le> round_half_even (of_int N)"
    by (rule round_half_even_mono)
  then have "(of_int (round_half_even (x / q)) :: rat) \<le> of_int N" by simp
  then show ?thesis using assms(1) by simp
qed

lemma round_ge_grid:
  assumes "0 < q" and "of_int N * q \<le> x"
  shows "of_int N * q \<le> of_int (round_half_even (x / q)) * q"
proof -
  have "of_int N \<le> x / q" using assms by (simp add: field_simps)
  then have "round_half_even (of_int N) \<le> round_half_even (x / q)"
    by (rule round_half_even_mono)
  then have "(of_int N :: rat) \<le> of_int (round_half_even (x / q))" by simp
  then show ?thesis using assms(1) by simp
qed


lemma binary64_quantum:
  "x \<noteq> 0 \<Longrightarrow> binary64 x = of_int (round_half_even (x / 2 powi quantum_exp x)) * 2 powi quantum_exp x"
  by (simp add: binary64_def quantum_exp_def Let_def)

lemma binary64_zero [simp]: "binary64 0 = 0"
  by (simp add: binary64_def)

lemma binary64_nonneg:
  assumes "0 \<le> x"
  shows "0 \<le> binary64 x"
proof (cases "x = 0")
  case True
  then show ?thesis by simp
next
  case False
  have "of_int 0 * 2 powi quantum_exp x
      \<le> (of_int (round_half_even (x / 2 powi quantum_exp x)) :: rat) * 2 powi quantum_exp x"
    by (rule round_ge_grid) (use assms in simp_all)
  then show ?thesis using False by (simp add: binary64_quantum)
qed

lemma pow2_ratio_int:
  assumes "l \<le> e"
  shows "(2 :: rat) powi e = of_int (2 ^ nat (e - l)) * 2 powi l"
proof -
  have "(2 :: rat) powi e = 2 powi (e - l) * 2 powi l"
    by (simp flip: power_int_add)
  also have "(2 :: rat) powi (e - l) = 2 ^ nat (e - l)"
    using assms by (simp add: power_int_def)
  finally show ?thesis by simp
qed

lemma binary64_mono:
  assumes "0 \<le> x" and "x \<le> y"
  shows "binary64 x \<le> binary64 y"
proof (cases "x = 0")
  case True
  then show ?thesis using binary64_nonneg [of y] assms by simp
next
  case False
  then have xpos: "0 < x" using assms by simp
  then have ypos: "0 < y" using assms by simp
  have nzx: "x \<noteq> 0" and nzy: "y \<noteq> 0" using xpos ypos by auto
  let ?lx = "quantum_exp x" and ?ly = "quantum_exp y"
  have le: "?lx \<le> ?ly" using ilog2_mono [OF xpos assms(2)] by (simp add: quantum_exp_def)
  show ?thesis
  proof (cases "?lx = ?ly")
    case True
    have "x / 2 powi ?ly \<le> y / 2 powi ?ly" using assms(2) by (simp add: divide_right_mono)
    then have "round_half_even (x / 2 powi ?ly) \<le> round_half_even (y / 2 powi ?ly)"
      by (rule round_half_even_mono)
    then have "(of_int (round_half_even (x / 2 powi ?ly)) :: rat) * 2 powi ?ly
        \<le> of_int (round_half_even (y / 2 powi ?ly)) * 2 powi ?ly"
      by simp
    then show ?thesis using True nzx nzy by (simp add: binary64_quantum)
  next
    case False
    then have lt: "?lx < ?ly" using le by simp
    then have ly: "?ly = ilog2 y - 52" and ex: "ilog2 x + 1 \<le> ilog2 y"
      by (auto simp: quantum_exp_def max_def split: if_splits)
    have lxe: "?lx \<le> ilog2 y" using lt ly by simp
    let ?t = "(2 :: rat) powi (ilog2 y)"
    have "x < 2 powi (ilog2 x + 1)" using ilog2_bounds(2) [OF nzx] xpos by simp
    also have "\<dots> \<le> ?t" using ex by (intro power_int_increasing) simp_all
    finally have xt: "x \<le> ?t" by simp
    have ty: "?t \<le> y" using ilog2_bounds(1) [OF nzy] ypos by simp
    have tx: "?t = of_int (2 ^ nat (ilog2 y - ?lx)) * 2 powi ?lx"
      by (rule pow2_ratio_int [OF lxe])
    have tyq: "?t = of_int (2 ^ nat (ilog2 y - ?ly)) * 2 powi ?ly"
      by (rule pow2_ratio_int) (simp add: ly)
    have "binary64 x \<le> ?t"
      using round_le_grid [of "2 powi ?lx" x "2 ^ nat (ilog2 y - ?lx)"] xt tx nzx
      by (simp add: binary64_quantum)
    moreover have "?t \<le> binary64 y"
      using round_ge_grid [of "2 powi ?ly" "2 ^ nat (ilog2 y - ?ly)" y] ty tyq nzy
      by (simp add: binary64_quantum)
    ultimately show ?thesis by simp
  qed
qed


lemma round_half_even_eqI:
  assumes "\<bar>x - of_int m\<bar> < 1 / 2"
  shows "round_half_even x = m"
proof (cases "of_int m \<le> x")
  case True
  then have "\<lfloor>x\<rfloor> = m" using assms by (intro floor_unique) auto
  then show ?thesis using assms True by (auto simp: round_half_even_def Let_def)
next
  case False
  then have "\<lfloor>x\<rfloor> = m - 1" using assms by (intro floor_unique) auto
  then show ?thesis using assms False by (auto simp: round_half_even_def Let_def)
qed

lemma binary64_eval:
  assumes "2 powi k \<le> \<bar>x\<bar>" and "\<bar>x\<bar> < 2 powi (k + 1)"
    and "l = max (k - 52) (- 1074)" and "\<bar>x / 2 powi l - of_int m\<bar> < 1 / 2"
  shows "binary64 x = of_int m * 2 powi l"
proof -
  have k: "ilog2 x = k" using assms(1,2) by (rule ilog2_eqI)
  have "x \<noteq> 0" using assms(1) by (rule pow2_le_abs_nonzero)
  then show ?thesis using k assms(3) round_half_even_eqI [OF assms(4)]
    by (simp add: binary64_def Let_def)
qed

lemma binary64_one: "binary64 1 = 1"
proof -
  have "binary64 1 = of_int (2 ^ 52) * 2 powi (- 52)"
    by (rule binary64_eval [where k = 0]) simp_all
  then show ?thesis by simp
qed

lemma binary64_hundred: "binary64 100 = 100"
proof -
  have "binary64 100 = of_int (100 * 2 ^ 46) * 2 powi (- 46)"
    by (rule binary64_eval [where k = 6]) simp_all
  then show ?thesis by simp
qed

lemma uptime_percentage_eval:
  assumes "b \<noteq> 0"
    and "binary64 (of_int a / of_int b) = r" and "\<bar>r\<bar> < 2 ^ 1024"
    and "binary64 (r * 100) = r'" and "\<bar>r'\<bar> < 2 ^ 1024"
    and "0 \<le> r'" and "of_int p \<le> r'" and "r' < of_int p + 1"
  shows "uptime_percentage a b = Inr p"
proof -
  have "int_true_div a b = Inr r"
    using assms(1,2,3) by (simp add: int_true_div_def Let_def not_le [symmetric])
  moreover have "float_mul r 100 = Finite r'"
    using assms(4,5) by (simp add: float_mul_def Let_def not_le [symmetric])
  moreover have "\<lfloor>r'\<rfloor> = p" using assms(7,8) by (rule floor_unique)
  ultimately show ?thesis using assms(6)
    by (simp add: uptime_percentage_def float_to_int_def)
qed

section \<open>The percentage and the unit cells of an interval list\<close>

lemma ratio_bounds:
  assumes "0 \<le> a" and "a \<le> b" and "0 < (b :: int)"
  shows "0 \<le> (of_int a / of_int b :: rat)" and "(of_int a / of_int b :: rat) \<le> 1"
  using assms by simp_all

lemma binary64_unit:
  assumes "0 \<le> x" and "x \<le> 1"
  shows "0 \<le> binary64 x" and "binary64 x \<le> 1"
  using binary64_nonneg [OF assms(1)] binary64_mono [OF assms] by (simp_all add: binary64_one)

lemma binary64_percent:
  assumes "0 \<le> x" and "x \<le> 1"
  shows "0 \<le> binary64 (binary64 x * 100)" and "binary64 (binary64 x * 100) \<le> 100"
proof -
  note u = binary64_unit [OF assms]
  have 1: "0 \<le> binary64 x * 100" using u(1) by simp
  have 2: "binary64 x * 100 \<le> 100" using u(2) by simp
  show "0 \<le> binary64 (binary64 x * 100)" using 1 by (rule binary64_nonneg)
  show "binary64 (binary64 x * 100) \<le> 100"
    using binary64_mono [OF 1 2] by (simp add: binary64_hundred)
qed

lemma uptime_percentage_eq:
  assumes "0 \<le> a" and "a \<le> b" and "0 < b"
  shows "uptime_percentage a b = Inr (percent_of a b)"
proof -
  note r = ratio_bounds [OF assms]
  note u = binary64_unit [OF r]
  note p = binary64_percent [OF r]
  have "\<bar>binary64 (of_int a / of_int b)\<bar> \<le> 1" using u by simp
  also have "(1 :: rat) < 2 ^ 1024" by simp
  finally have 1: "int_true_div a b = Inr (binary64 (of_int a / of_int b))"
    using assms(3) by (simp add: int_true_div_def Let_def not_le [symmetric])
  have "\<bar>binary64 (binary64 (of_int a / of_int b) * 100)\<bar> \<le> 100" using p by simp
  also have "(100 :: rat) < 2 ^ 1024" by simp
  finally have 2: "float_mul (binary64 (of_int a / of_int b)) 100
      = Finite (binary64 (binary64 (of_int a / of_int b) * 100))"
    by (simp add: float_mul_def Let_def not_le [symmetric])
  show ?thesis using 1 2 p(1)
    by (simp add: uptime_percentage_def float_to_int_def percent_of_def)
qed

lemma percent_of_range:
  assumes "0 \<le> a" and "a \<le> b" and "0 < b"
  shows "0 \<le> percent_of a b" and "percent_of a b \<le> 100"
proof -
  note p = binary64_percent [OF ratio_bounds [OF assms]]
  show "0 \<le> percent_of a b" using p(1) by (simp add: percent_of_def)
  have "\<lfloor>binary64 (binary64 (of_int a / of_int b) * 100)\<rfloor> \<le> \<lfloor>100 :: rat\<rfloor>"
    using p(2) by (rule floor_mono)
  then show "percent_of a b \<le> 100" by (simp add: percent_of_def)
qed

lemma percent_of_mono:
  assumes "0 \<le> a" and "0 < b" and "0 < b'" and "a * b' \<le> a' * b"
  shows "percent_of a b \<le> percent_of a' b'"
proof -
  have 0: "0 \<le> (of_int a / of_int b :: rat)" using assms(1,2) by simp
  have "(of_int (a * b') :: rat) \<le> of_int (a' * b)" using assms(4) by (simp only: of_int_le_iff)
  then have 1: "(of_int a / of_int b :: rat) \<le> of_int a' / of_int b'"
    using assms(2,3) by (simp add: field_simps)
  have 2: "binary64 (of_int a / of_int b) \<le> binary64 (of_int a' / of_int b')"
    using 0 1 by (rule binary64_mono)
  have 3: "0 \<le> binary64 (of_int a / of_int b) * 100"
    using binary64_nonneg [OF 0] by simp
  have "binary64 (binary64 (of_int a / of_int b) * 100)
      \<le> binary64 (binary64 (of_int a' / of_int b') * 100)"
    using 3 by (rule binary64_mono) (use 2 in simp)
  then show ?thesis unfolding percent_of_def by (rule floor_mono)
qed

lemma percent_of_zero: "percent_of 0 b = 0"
  by (simp add: percent_of_def)

lemma percent_of_full: "b \<noteq> 0 \<Longrightarrow> percent_of b b = 100"
  by (simp add: percent_of_def binary64_one binary64_hundred)

lemma cells_Nil [simp]: "cells [] = {}"
  by (simp add: cells_def)

lemma cells_Cons [simp]: "cells ((a, b) # ivs) = {a..<b} \<union> cells ivs"
  by (simp add: cells_def)

lemma cells_append [simp]: "cells (xs @ ys) = cells xs \<union> cells ys"
  by (auto simp: cells_def)

lemma cells_concat: "cells (concat xss) = (\<Union>xs \<in> set xss. cells xs)"
  by (induction xss) auto

lemma cells_set_cong: "set xs = set ys \<Longrightarrow> cells xs = cells ys"
  by (simp add: cells_def)

lemma finite_cells [simp]: "finite (cells ivs)"
  by (auto simp: cells_def)

lemma total_length_Cons [simp]: "total_length ((a, b) # ivs) = b - a + total_length ivs"
  by (simp add: total_length_def)

lemma cells_lower: "k \<in> cells ivs \<Longrightarrow> \<exists>iv \<in> set ivs. fst iv \<le> k"
proof -
  assume "k \<in> cells ivs"
  then obtain a b where "(a, b) \<in> set ivs" "a \<le> k" by (auto simp: cells_def)
  then have "(a, b) \<in> set ivs \<and> fst (a, b) \<le> k" by simp
  then show ?thesis by blast
qed

lemma merge_from_length:
  assumes "sorted (map fst (cur # rest))" and "well_formed_intervals (cur # rest)"
  shows "total_length (merge_from cur rest) = int (card (cells (cur # rest)))"
  using assms
proof (induction rest arbitrary: cur)
  case Nil
  obtain a b where cur: "cur = (a, b)" by (cases cur)
  then show ?case using Nil by (simp add: well_formed_intervals_def total_length_def)
next
  case (Cons iv rest)
  obtain a b where cur: "cur = (a, b)" by (cases cur)
  obtain c d where iv: "iv = (c, d)" by (cases iv)
  have wf: "a \<le> b" "c \<le> d" "well_formed_intervals rest"
    using Cons.prems(2) by (simp_all add: cur iv well_formed_intervals_def)
  have ac: "a \<le> c" using Cons.prems(1) by (simp add: cur iv)
  show ?case
  proof (cases "c \<le> b")
    case True
    let ?cur = "(a, max b d)"
    have s: "sorted (map fst (?cur # rest))" using Cons.prems(1) by (auto simp: cur iv)
    have w: "well_formed_intervals (?cur # rest)"
      using wf by (simp add: well_formed_intervals_def max_def)
    have "{a..<max b d} = {a..<b} \<union> {c..<d}" using True ac wf by auto
    then have "cells (?cur # rest) = cells (cur # iv # rest)" by (auto simp: cur iv)
    then show ?thesis using Cons.IH [OF s w] True by (simp add: cur iv)
  next
    case False
    have s: "sorted (map fst (iv # rest))" using Cons.prems(1) by simp
    have w: "well_formed_intervals (iv # rest)"
      using Cons.prems(2) by (simp add: well_formed_intervals_def)
    have "\<forall>k \<in> cells (iv # rest). c \<le> k"
    proof
      fix k assume "k \<in> cells (iv # rest)"
      then obtain x where "x \<in> set (iv # rest)" "fst x \<le> k" using cells_lower by blast
      moreover have "c \<le> fst x" using s \<open>x \<in> set (iv # rest)\<close> by (auto simp: iv)
      ultimately show "c \<le> k" by simp
    qed
    then have disj: "{a..<b} \<inter> cells (iv # rest) = {}" using False by fastforce
    have "card (cells (cur # iv # rest)) = card {a..<b} + card (cells (iv # rest))"
      unfolding cur cells_Cons [of a b] by (rule card_Un_disjoint) (use disj in simp_all)
    then show ?thesis using Cons.IH [OF s w] False wf(1) by (simp add: cur iv)
  qed
qed

lemma merge_intervals_length:
  assumes "well_formed_intervals ivs"
  shows "total_length (merge_intervals ivs) = int (card (cells ivs))"
proof (cases "sort ivs")
  case Nil
  then have "ivs = []" by (metis set_empty2 set_sort)
  then show ?thesis by (simp add: merge_intervals_def total_length_def)
next
  case (Cons cur rest)
  have set_eq: "set (cur # rest) = set ivs" using Cons by (metis set_sort)
  have "sorted (sort ivs)" by simp
  then have "sorted (map fst (sort ivs))" by (rule sorted_map_fst)
  then have "sorted (map fst (cur # rest))" by (simp only: Cons)
  moreover have "well_formed_intervals (cur # rest)"
    using assms set_eq unfolding well_formed_intervals_def by blast
  ultimately have "total_length (merge_from cur rest) = int (card (cells (cur # rest)))"
    by (rule merge_from_length)
  then show ?thesis using Cons cells_set_cong [OF set_eq] by (simp add: merge_intervals_sorted)
qed

lemma cells_split_interval:
  "cells (split_interval s e (a, b)) = {a..<b} - {s..<e}"
  by (auto simp: split_interval_def)

lemma cells_apply_report:
  "cells (apply_report ivs r) =
     (if is_up r then cells ivs \<union> {start_time r..<end_time r}
      else cells ivs - {start_time r..<end_time r})"
proof (cases "is_up r")
  case True
  then show ?thesis by (simp add: apply_report_def)
next
  case False
  have "cells (concat (map (split_interval s e) ivs)) = cells ivs - {s..<e}" for s e
  proof (induction ivs)
    case Nil
    show ?case by simp
  next
    case (Cons iv ivs)
    obtain a b where "iv = (a, b)" by (cases iv)
    then show ?case using Cons by (auto simp: cells_split_interval)
  qed
  then show ?thesis using False by (simp add: apply_report_def)
qed

lemma well_formed_apply_report:
  assumes "well_formed_intervals ivs" and "is_up r \<longrightarrow> start_time r \<le> end_time r"
  shows "well_formed_intervals (apply_report ivs r)"
  using assms
  by (auto simp: well_formed_intervals_def apply_report_def split_interval_def split: if_splits)

section \<open>The merge rule on lists of any length\<close>

lemma merge_intervals_of_sorted:
  assumes "sorted (cur # rest)"
  shows "merge_intervals (cur # rest) = merge_from cur rest"
proof -
  have "sort (cur # rest) = cur # rest" using assms by (rule sorted_sort_id)
  then show ?thesis by (simp add: merge_intervals_sorted)
qed

lemma merge_intervals_sort: "merge_intervals xs = merge_intervals (sort xs)"
proof -
  have "sort (sort xs) = sort xs" by (rule sorted_sort_id) simp
  then show ?thesis by (simp add: merge_intervals_sorted)
qed

lemma sorted_merged_head:
  assumes "sorted ((a, b) # (c, d) # rest)"
  shows "sorted ((a, max b d) # rest)"
proof -
  have ab: "(a, b) \<le> (c, d)" and cd: "\<forall>r \<in> set rest. (c, d) \<le> r" and r: "sorted rest"
    using assms by simp_all
  have "\<forall>r \<in> set rest. (a, max b d) \<le> r"
  proof
    fix r assume "r \<in> set rest"
    then have "(c, d) \<le> r" using cd by simp
    then show "(a, max b d) \<le> r"
      using ab by (cases r) (auto simp: less_eq_prod_def max_def)
  qed
  then show ?thesis using r by simp
qed

lemma merge_intervals_step:
  assumes "sorted ((a, b) # (c, d) # rest)"
  shows "merge_intervals ((a, b) # (c, d) # rest) =
     (if c \<le> b then merge_intervals ((a, max b d) # rest)
      else (a, b) # merge_intervals ((c, d) # rest))"
proof -
  have 1: "merge_intervals ((a, b) # (c, d) # rest) = merge_from (a, b) ((c, d) # rest)"
    using assms by (rule merge_intervals_of_sorted)
  have 2: "merge_intervals ((a, max b d) # rest) = merge_from (a, max b d) rest"
    using sorted_merged_head [OF assms] by (rule merge_intervals_of_sorted)
  have "sorted ((c, d) # rest)" using assms by simp
  then have 3: "merge_intervals ((c, d) # rest) = merge_from (c, d) rest"
    by (rule merge_intervals_of_sorted)
  show ?thesis unfolding 1 2 3 by simp
qed

lemma merge_intervals_single: "merge_intervals [iv] = [iv]"
  by (simp add: merge_intervals_def)

lemma cells_merge_from:
  assumes "sorted (map fst (cur # rest))"
  shows "cells (merge_from cur rest) = cells (cur # rest)"
  using assms
proof (induction rest arbitrary: cur)
  case Nil
  show ?case by simp
next
  case (Cons iv rest)
  obtain a b where cur: "cur = (a, b)" by (cases cur)
  obtain c d where iv: "iv = (c, d)" by (cases iv)
  have ac: "a \<le> c" using Cons.prems by (simp add: cur iv)
  show ?case
  proof (cases "c \<le> b")
    case True
    have s: "sorted (map fst ((a, max b d) # rest))" using Cons.prems by (auto simp: cur iv)
    have "{a..<max b d} = {a..<b} \<union> {c..<d}" using True ac by auto
    then have "cells ((a, max b d) # rest) = cells (cur # iv # rest)" by (auto simp: cur iv)
    then show ?thesis using Cons.IH [OF s] True by (simp add: cur iv)
  next
    case False
    have s: "sorted (map fst (iv # rest))" using Cons.prems by simp
    show ?thesis using Cons.IH [OF s] False by (simp add: cur iv)
  qed
qed

lemma cells_merge_intervals: "cells (merge_intervals xs) = cells xs"
proof (cases "sort xs")
  case Nil
  then have "xs = []" by (metis set_empty2 set_sort)
  then show ?thesis by (simp add: merge_intervals_def)
next
  case (Cons cur rest)
  have set_eq: "set (cur # rest) = set xs" using Cons by (metis set_sort)
  have "sorted (sort xs)" by simp
  then have "sorted (map fst (sort xs))" by (rule sorted_map_fst)
  then have "sorted (map fst (cur # rest))" by (simp only: Cons)
  then have "cells (merge_from cur rest) = cells (cur # rest)" by (rule cells_merge_from)
  then show ?thesis using Cons cells_set_cong [OF set_eq] by (simp add: merge_intervals_sorted)
qed

text \<open>
  Claim C6. The station-level merge sorts its input. On a sorted list the first interval
  \<open>(a, b)\<close> and the next interval \<open>(c, d)\<close>, so that \<open>a \<le> c\<close>, become one interval exactly
  when \<open>c \<le> b\<close>, touching endpoints included, and the merged interval ends at the maximum of
  \<open>b\<close> and \<open>d\<close> and is merged on with the rest; otherwise \<open>(a, b)\<close> is put out and the merge
  goes on from \<open>(c, d)\<close>. With the results for the empty list and for a single interval,
  these equations fix the merge of a list of any length. In particular, two intervals with
  start at most end and \<open>a \<le> c\<close>, in whichever order they are supplied, give
  \<open>[(a, max b d)]\<close> if \<open>c \<le> b\<close> and both intervals otherwise. For every input list the output
  is sorted by start, every interval of it starts strictly after the end of each interval
  before it, it covers the same unit cells as the input, and, for intervals with start at
  most end, the sum of its lengths is the number of cells covered.
\<close>

theorem merge_rule_touching_and_output_disjoint:
  "merge_intervals [] = []
   \<and> merge_intervals [(a, b)] = [(a, b)]
   \<and> merge_intervals xs = merge_intervals (sort xs)
   \<and> (sorted ((a, b) # (c, d) # rest) \<longrightarrow>
        merge_intervals ((a, b) # (c, d) # rest) =
          (if c \<le> b then merge_intervals ((a, max b d) # rest)
           else (a, b) # merge_intervals ((c, d) # rest)))
   \<and> (a \<le> c \<and> a \<le> b \<and> c \<le> d \<longrightarrow>
        merge_intervals [(a, b), (c, d)] = (if c \<le> b then [(a, max b d)] else [(a, b), (c, d)]) \<and>
        merge_intervals [(c, d), (a, b)] = (if c \<le> b then [(a, max b d)] else [(a, b), (c, d)]))
   \<and> sorted (map fst (merge_intervals xs))
   \<and> sorted_wrt (\<lambda>x y. snd x < fst y) (merge_intervals xs)
   \<and> cells (merge_intervals xs) = cells xs
   \<and> (well_formed_intervals xs \<longrightarrow> total_length (merge_intervals xs) = int (card (cells xs)))"
proof -
  have "merge_intervals [] = []" by (simp add: merge_intervals_def)
  moreover have "merge_intervals [(a, b)] = [(a, b)]" by (rule merge_intervals_single)
  moreover have "merge_intervals xs = merge_intervals (sort xs)" by (rule merge_intervals_sort)
  moreover note merge_intervals_step [of a b c d rest]
    merge_pair_in_order [of a c b d] merge_pair_swapped [of a c b d]
    merge_intervals_sorted_fst [of xs] merge_intervals_separated [of xs]
    cells_merge_intervals [of xs] merge_intervals_length [of xs]
  ultimately show ?thesis by blast
qed

theorem merge_rule_touching_and_output_disjoint_witness:
  "merge_intervals [(20, 30), (5, 9), (0, 5)] = [(0, 9), (20, 30)]
   \<and> merge_intervals [(0, 5), (5, 9)] = [(0, 9)] \<and> merge_intervals [(5, 9), (0, 5)] = [(0, 9)]
   \<and> merge_intervals [(0, 4), (5, 9)] = [(0, 4), (5, 9)]
   \<and> sorted_wrt (\<lambda>x y. snd x < fst y) (merge_intervals [(20, 30), (5, 9), (0, 5)])
   \<and> total_length (merge_intervals [(20, 30), (5, 9), (0, 5)]) = 19"
proof -
  have s: "sort [(20, 30), (5, 9), (0 :: int, 5 :: int)] = [(0, 5), (5, 9), (20, 30)]"
    by (simp add: less_eq_prod_def)
  have o1: "sorted [(0 :: int, 5 :: int), (5, 9), (20, 30)]" by (simp add: less_eq_prod_def)
  have o2: "sorted [(0 :: int, 9 :: int), (20, 30)]" by (simp add: less_eq_prod_def)
  have w: "well_formed_intervals [(20, 30), (5, 9), (0, 5)]"
    by (simp add: well_formed_intervals_def)
  have c: "cells [(20, 30), (5, 9), (0, 5)] = {0..<9} \<union> {20..<30}" by auto
  have "card ({0..<9} \<union> {20..<30 :: int}) = card {0..<9 :: int} + card {20..<30 :: int}"
    by (rule card_Un_disjoint) auto
  then have k: "int (card (cells [(20, 30), (5, 9), (0, 5)])) = 19" unfolding c by simp
  from merge_rule_touching_and_output_disjoint [of 0 5 "[(20, 30), (5, 9), (0, 5)]" 5 9 "[(20, 30)]"]
    merge_rule_touching_and_output_disjoint [of 0 9 "[]" 20 30 "[]"]
    merge_rule_touching_and_output_disjoint [of 20 30 "[]" 20 30 "[]"]
    merge_rule_touching_and_output_disjoint [of 0 4 "[]" 5 9 "[]"]
  show ?thesis using s o1 o2 w k by (simp add: merge_intervals_single total_length_def)
qed

section \<open>The loop over the chargers of a station\<close>

lemma sort_reports_set [simp]: "set (sort_reports rs) = set rs"
  by (simp add: sort_reports_def)

lemma sort_reports_Nil_iff [simp]: "sort_reports rs = [] \<longleftrightarrow> rs = []"
  by (metis set_empty sort_reports_set)

lemma reconcile_Nil [simp]: "reconcile [] = []"
  by (simp add: reconcile_def)

lemma finite_station_reports [simp]: "finite (station_reports creports cids)"
  by (simp add: station_reports_def)

lemma station_reports_snoc:
  "station_reports creports (ps @ [cid]) = station_reports creports ps \<union> set (reports_of creports cid)"
  by (auto simp: station_reports_def)

lemma acc_inv_init: "acc_inv creports [] init_acc"
  by (simp add: acc_inv_def init_acc_def station_reports_def)

lemma process_charger_skip:
  assumes "reports_of creports cid = []"
  shows "process_charger creports acc cid = acc"
  using assms by (auto simp: process_charger_def reports_of_def Let_def split: option.splits)

lemma process_charger_reports:
  assumes "reports_of creports cid = rs" and "rs \<noteq> []"
  shows "process_charger creports acc cid =
    acc\<lparr>has_reports := True,
        min_time := Some (case min_time acc of None \<Rightarrow> Min (start_time ` set rs)
                          | Some t \<Rightarrow> min t (Min (start_time ` set rs))),
        max_time := Some (case max_time acc of None \<Rightarrow> Max (end_time ` set rs)
                          | Some t \<Rightarrow> max t (Max (end_time ` set rs))),
        charger_up_intervals :=
          (if up_intervals_of creports cid = [] then charger_up_intervals acc
           else AList.update cid (up_intervals_of creports cid) (charger_up_intervals acc))\<rparr>"
proof -
  from assms have m: "map_of creports cid = Some rs"
    by (auto simp: reports_of_def split: option.splits)
  show ?thesis using assms(2)
    by (simp add: process_charger_def m Let_def up_intervals_of_def assms(1))
qed

lemma acc_inv_step:
  assumes "acc_inv creports ps acc"
  shows "acc_inv creports (ps @ [cid]) (process_charger creports acc cid)"
proof (cases "reports_of creports cid = []")
  case True
  then have "up_intervals_of creports cid = []"
    by (simp add: up_intervals_of_def sort_reports_def)
  then show ?thesis using assms True
    by (auto simp: acc_inv_def process_charger_skip station_reports_snoc fun_eq_iff)
next
  case False
  define rs where "rs = reports_of creports cid"
  have rs: "reports_of creports cid = rs" "rs \<noteq> []" using False by (simp_all add: rs_def)
  let ?R = "station_reports creports ps"
  have R': "station_reports creports (ps @ [cid]) = ?R \<union> set rs"
    by (simp add: station_reports_snoc rs)
  have ne: "?R \<union> set rs \<noteq> {}" using rs(2) by simp
  have mn: "(case min_time acc of None \<Rightarrow> Min (start_time ` set rs)
             | Some t \<Rightarrow> min t (Min (start_time ` set rs))) = Min (start_time ` (?R \<union> set rs))"
  proof (cases "?R = {}")
    case True
    then show ?thesis using assms by (simp add: acc_inv_def)
  next
    case False
    then have "Min (start_time ` ?R \<union> start_time ` set rs)
        = min (Min (start_time ` ?R)) (Min (start_time ` set rs))"
      using rs(2) by (intro Min_Un) simp_all
    then show ?thesis using assms False by (simp add: acc_inv_def image_Un)
  qed
  have mx: "(case max_time acc of None \<Rightarrow> Max (end_time ` set rs)
             | Some t \<Rightarrow> max t (Max (end_time ` set rs))) = Max (end_time ` (?R \<union> set rs))"
  proof (cases "?R = {}")
    case True
    then show ?thesis using assms by (simp add: acc_inv_def)
  next
    case False
    then have "Max (end_time ` ?R \<union> end_time ` set rs)
        = max (Max (end_time ` ?R)) (Max (end_time ` set rs))"
      using rs(2) by (intro Max_Un) simp_all
    then show ?thesis using assms False by (simp add: acc_inv_def image_Un)
  qed
  have d: "distinct (map fst (charger_up_intervals acc))"
    and m: "map_of (charger_up_intervals acc) =
       (\<lambda>c. if c \<in> set ps \<and> up_intervals_of creports c \<noteq> []
              then Some (up_intervals_of creports c) else None)"
    using assms by (simp_all add: acc_inv_def)
  show ?thesis
    unfolding process_charger_reports [OF rs] acc_inv_def R'
    using ne mn mx d m
    by (auto simp: AList.distinct_update AList.update_conv' fun_eq_iff)
qed

lemma acc_inv_foldl:
  assumes "acc_inv creports ps acc"
  shows "acc_inv creports (ps @ cids) (foldl (process_charger creports) acc cids)"
  using assms
proof (induction cids arbitrary: ps acc)
  case Nil
  then show ?case by simp
next
  case (Cons cid cids)
  have "acc_inv creports ((ps @ [cid]) @ cids)
          (foldl (process_charger creports) (process_charger creports acc cid) cids)"
    by (rule Cons.IH) (rule acc_inv_step [OF Cons.prems])
  then show ?case by simp
qed

lemma acc_inv_station:
  "acc_inv creports cids (foldl (process_charger creports) init_acc cids)"
  using acc_inv_foldl [OF acc_inv_init, of creports cids] by simp

lemma has_reports_bounds:
  assumes "has_reports (foldl (process_charger creports) init_acc cids)"
  shows "min_time (foldl (process_charger creports) init_acc cids) \<noteq> None"
    and "max_time (foldl (process_charger creports) init_acc cids) \<noteq> None"
  using acc_inv_station [of creports cids] assms by (auto simp: acc_inv_def)

lemma acc_values:
  assumes "acc_inv creports cids acc"
  shows "snd ` set (charger_up_intervals acc) =
    {up_intervals_of creports cid | cid. cid \<in> set cids \<and> up_intervals_of creports cid \<noteq> []}"
proof -
  have d: "distinct (map fst (charger_up_intervals acc))"
    and m: "map_of (charger_up_intervals acc) =
       (\<lambda>c. if c \<in> set cids \<and> up_intervals_of creports c \<noteq> []
              then Some (up_intervals_of creports c) else None)"
    using assms by (simp_all add: acc_inv_def)
  have "snd ` set (charger_up_intervals acc) = ran (map_of (charger_up_intervals acc))"
    using d by (simp add: ran_distinct)
  also have "\<dots> = {up_intervals_of creports cid | cid. cid \<in> set cids \<and> up_intervals_of creports cid \<noteq> []}"
    unfolding m by (auto simp: ran_def)
  finally show ?thesis .
qed

lemma acc_cells:
  assumes "acc_inv creports cids acc"
  shows "cells (concat (map snd (charger_up_intervals acc))) = station_cells creports cids"
proof -
  have "cells (concat (map snd (charger_up_intervals acc)))
      = (\<Union>ivs \<in> snd ` set (charger_up_intervals acc). cells ivs)"
    by (simp add: cells_concat)
  also have "\<dots> = (\<Union>ivs \<in> {up_intervals_of creports cid | cid.
                      cid \<in> set cids \<and> up_intervals_of creports cid \<noteq> []}. cells ivs)"
    by (simp only: acc_values [OF assms])
  also have "\<dots> = station_cells creports cids"
  proof (rule set_eqI)
    fix k
    show "k \<in> (\<Union>ivs \<in> {up_intervals_of creports cid | cid.
                      cid \<in> set cids \<and> up_intervals_of creports cid \<noteq> []}. cells ivs)
          \<longleftrightarrow> k \<in> station_cells creports cids"
      unfolding station_cells_def by fastforce
  qed
  finally show ?thesis .
qed

lemma foldl_apply_report_wf:
  assumes "well_formed_intervals ivs" and "\<forall>r \<in> set rs. start_time r \<le> end_time r"
  shows "well_formed_intervals (foldl apply_report ivs rs)"
  using assms
proof (induction rs arbitrary: ivs)
  case Nil
  then show ?case by simp
next
  case (Cons r rs)
  have "well_formed_intervals (apply_report ivs r)"
    by (rule well_formed_apply_report) (use Cons.prems in simp_all)
  then show ?case using Cons by simp
qed

lemma foldl_apply_report_cells:
  "cells (foldl apply_report ivs rs) \<subseteq> cells ivs \<union> (\<Union>r \<in> set rs. {start_time r..<end_time r})"
proof (induction rs arbitrary: ivs)
  case Nil
  show ?case by simp
next
  case (Cons r rs)
  have "cells (apply_report ivs r) \<subseteq> cells ivs \<union> {start_time r..<end_time r}"
    by (auto simp: cells_apply_report split: if_splits)
  then show ?case using Cons.IH [of "apply_report ivs r"] by auto
qed

lemma up_intervals_wf:
  assumes "well_formed_reports (set (reports_of creports cid))"
  shows "well_formed_intervals (up_intervals_of creports cid)"
  unfolding up_intervals_of_def reconcile_def
  by (rule foldl_apply_report_wf)
     (use assms in \<open>simp_all add: well_formed_intervals_def well_formed_reports_def\<close>)

lemma up_intervals_cells:
  "cells (up_intervals_of creports cid)
     \<subseteq> (\<Union>r \<in> set (reports_of creports cid). {start_time r..<end_time r})"
  using foldl_apply_report_cells [of "[]" "sort_reports (reports_of creports cid)"]
  by (simp add: up_intervals_of_def reconcile_def)

lemma station_bounds:
  assumes "r \<in> station_reports creports cids"
  shows "Min (start_time ` station_reports creports cids) \<le> start_time r"
    and "end_time r \<le> Max (end_time ` station_reports creports cids)"
  using assms by simp_all

lemma station_cells_window:
  "station_cells creports cids \<subseteq>
     {Min (start_time ` station_reports creports cids) ..< Max (end_time ` station_reports creports cids)}"
proof
  fix k assume "k \<in> station_cells creports cids"
  then obtain cid where cid: "cid \<in> set cids" and "k \<in> cells (up_intervals_of creports cid)"
    by (auto simp: station_cells_def)
  then obtain r where r: "r \<in> set (reports_of creports cid)" and k: "start_time r \<le> k" "k < end_time r"
    using up_intervals_cells [of creports cid] by fastforce
  have "r \<in> station_reports creports cids" using cid r by (auto simp: station_reports_def)
  note b = station_bounds [OF this]
  show "k \<in> {Min (start_time ` station_reports creports cids) ..< Max (end_time ` station_reports creports cids)}"
    using b k by simp
qed

lemma finite_station_cells [simp]: "finite (station_cells creports cids)"
  by (simp add: station_cells_def)

lemma station_cells_card:
  "int (card (station_cells creports cids))
     \<le> Max (end_time ` station_reports creports cids) - Min (start_time ` station_reports creports cids)
   \<or> station_cells creports cids = {}"
proof (cases "station_cells creports cids = {}")
  case True
  then show ?thesis by simp
next
  case False
  let ?lo = "Min (start_time ` station_reports creports cids)"
  let ?hi = "Max (end_time ` station_reports creports cids)"
  have sub: "station_cells creports cids \<subseteq> {?lo..<?hi}" by (rule station_cells_window)
  then have "card (station_cells creports cids) \<le> card {?lo..<?hi}"
    by (intro card_mono) simp_all
  then have "card (station_cells creports cids) \<le> nat (?hi - ?lo)" by simp
  moreover have "?lo < ?hi" using sub False by fastforce
  ultimately have "int (card (station_cells creports cids)) \<le> ?hi - ?lo" by linarith
  then show ?thesis by simp
qed

lemma station_uptime_no_reports:
  assumes "station_reports creports cids = {}"
  shows "station_uptime creports cids = Inr 0"
  using acc_inv_station [of creports cids] assms
  by (simp add: station_uptime_def acc_inv_def Let_def)

lemma station_uptime_instant:
  assumes "station_reports creports cids \<noteq> {}"
    and "Min (start_time ` station_reports creports cids) = t"
    and "Max (end_time ` station_reports creports cids) = t"
  shows "station_uptime creports cids =
    Inr (if \<exists>cid \<in> set cids. \<exists>(s, e) \<in> set (up_intervals_of creports cid). s \<le> t \<and> t \<le> e
         then 100 else 0)"
proof -
  let ?acc = "foldl (process_charger creports) init_acc cids"
  have inv: "acc_inv creports cids ?acc" by (rule acc_inv_station)
  have h: "has_reports ?acc" "min_time ?acc = Some t" "max_time ?acc = Some t"
    using inv assms by (simp_all add: acc_inv_def)
  have "(\<exists>intervals \<in> set (map snd (charger_up_intervals ?acc)).
            \<exists>(start, end) \<in> set intervals. start \<le> t \<and> t \<le> end)
      \<longleftrightarrow> (\<exists>cid \<in> set cids. \<exists>(s, e) \<in> set (up_intervals_of creports cid). s \<le> t \<and> t \<le> e)"
    unfolding set_map acc_values [OF inv] by fastforce
  then show ?thesis using h by (simp add: station_uptime_def Let_def)
qed

lemma station_uptime_window:
  assumes "station_reports creports cids \<noteq> {}"
    and "well_formed_reports (station_reports creports cids)"
    and "Min (start_time ` station_reports creports cids) = lo"
    and "Max (end_time ` station_reports creports cids) = hi"
    and "lo \<noteq> hi"
  shows "station_uptime creports cids =
    uptime_percentage (int (card (station_cells creports cids))) (hi - lo)"
proof -
  let ?acc = "foldl (process_charger creports) init_acc cids"
  have inv: "acc_inv creports cids ?acc" by (rule acc_inv_station)
  have h: "has_reports ?acc" "min_time ?acc = Some lo" "max_time ?acc = Some hi"
    using inv assms by (simp_all add: acc_inv_def)
  have "well_formed_intervals (concat (map snd (charger_up_intervals ?acc)))"
    unfolding well_formed_intervals_def
  proof
    fix iv assume "iv \<in> set (concat (map snd (charger_up_intervals ?acc)))"
    then obtain ivs where "ivs \<in> snd ` set (charger_up_intervals ?acc)" "iv \<in> set ivs" by auto
    then obtain cid where cid: "cid \<in> set cids" and iv: "iv \<in> set (up_intervals_of creports cid)"
      unfolding acc_values [OF inv] by auto
    have "well_formed_reports (set (reports_of creports cid))"
      using assms(2) cid by (auto simp: well_formed_reports_def station_reports_def)
    then show "fst iv \<le> snd iv"
      using up_intervals_wf [of creports cid] iv by (simp add: well_formed_intervals_def)
  qed
  then have "total_length (merge_intervals (concat (map snd (charger_up_intervals ?acc))))
      = int (card (station_cells creports cids))"
    by (simp add: merge_intervals_length acc_cells [OF inv])
  then show ?thesis using h assms(5)
    by (simp add: station_uptime_def Let_def total_length_def)
qed

text \<open>
  The order in which the set of charger ids is iterated, and a repeated id, do not change
  the result of a station.
\<close>

lemma station_uptime_order_independent:
  assumes "set cids = set cids'"
    and "well_formed_reports (station_reports creports cids)"
  shows "station_uptime creports cids = station_uptime creports cids'"
proof -
  have R: "station_reports creports cids' = station_reports creports cids"
    using assms(1) by (simp add: station_reports_def)
  have C: "station_cells creports cids' = station_cells creports cids"
    using assms(1) by (simp add: station_cells_def)
  have wf': "well_formed_reports (station_reports creports cids')" using assms(2) by (simp add: R)
  show ?thesis
  proof (cases "station_reports creports cids = {}")
    case True
    then show ?thesis by (simp add: station_uptime_no_reports R)
  next
    case False
    let ?lo = "Min (start_time ` station_reports creports cids)"
    let ?hi = "Max (end_time ` station_reports creports cids)"
    have ne': "station_reports creports cids' \<noteq> {}" using False by (simp add: R)
    show ?thesis
    proof (cases "?lo = ?hi")
      case True
      have "station_uptime creports cids' =
          Inr (if \<exists>cid \<in> set cids'. \<exists>(s, e) \<in> set (up_intervals_of creports cid). s \<le> ?lo \<and> ?lo \<le> e
               then 100 else 0)"
        by (rule station_uptime_instant [OF ne']) (simp_all add: R True)
      then show ?thesis
        using station_uptime_instant [OF False refl True [symmetric]] assms(1) by simp
    next
      case ne: False
      have "station_uptime creports cids'
          = uptime_percentage (int (card (station_cells creports cids'))) (?hi - ?lo)"
        by (rule station_uptime_window [OF ne' wf']) (simp_all add: R ne)
      then show ?thesis
        using station_uptime_window [OF False assms(2) refl refl ne] by (simp add: C)
    qed
  qed
qed

section \<open>The range of the results\<close>

lemma well_formed_station:
  assumes "well_formed c"
  shows "well_formed_reports (station_reports (charger_reports c) cids)"
  unfolding well_formed_reports_def
proof
  fix r assume "r \<in> station_reports (charger_reports c) cids"
  then obtain cid where "r \<in> set (reports_of (charger_reports c) cid)"
    by (auto simp: station_reports_def)
  then obtain rs where "map_of (charger_reports c) cid = Some rs" "r \<in> set rs"
    by (cases "map_of (charger_reports c) cid") (auto simp: reports_of_def)
  then have "(cid, rs) \<in> set (charger_reports c)" by (auto dest: map_of_SomeD)
  then show "start_time r \<le> end_time r"
    using assms \<open>r \<in> set rs\<close> unfolding well_formed_def by blast
qed

lemma station_window_ordered:
  assumes "R \<noteq> {}" and "finite R" and "well_formed_reports R"
  shows "Min (start_time ` R) \<le> Max (end_time ` R)"
proof -
  obtain r where r: "r \<in> R" using assms(1) by auto
  have "Min (start_time ` R) \<le> start_time r" using r assms(2) by simp
  also have "\<dots> \<le> end_time r" using r assms(3) by (simp add: well_formed_reports_def)
  also have "\<dots> \<le> Max (end_time ` R)" using r assms(2) by simp
  finally show ?thesis .
qed

lemma station_uptime_range:
  assumes "well_formed_reports (station_reports creports cids)"
  shows "\<exists>p. station_uptime creports cids = Inr p \<and> 0 \<le> p \<and> p \<le> 100"
proof (cases "station_reports creports cids = {}")
  case True
  then show ?thesis by (simp add: station_uptime_no_reports)
next
  case False
  let ?lo = "Min (start_time ` station_reports creports cids)"
  let ?hi = "Max (end_time ` station_reports creports cids)"
  show ?thesis
  proof (cases "?lo = ?hi")
    case True
    show ?thesis
      using station_uptime_instant [OF False refl True [symmetric]] by simp
  next
    case ne: False
    have "?lo \<le> ?hi" using False assms by (intro station_window_ordered) simp_all
    then have lt: "0 < ?hi - ?lo" using ne by simp
    have le: "int (card (station_cells creports cids)) \<le> ?hi - ?lo"
      using station_cells_card [of creports cids] lt by auto
    have "station_uptime creports cids
        = Inr (percent_of (int (card (station_cells creports cids))) (?hi - ?lo))"
      using station_uptime_window [OF False assms refl refl ne]
        uptime_percentage_eq [OF _ le lt] by simp
    then show ?thesis using percent_of_range [OF _ le lt] by simp
  qed
qed

lemma station_loop_range:
  assumes "well_formed c"
    and "\<forall>sid \<in> set sids. map_of (station_chargers c) sid \<noteq> None"
    and "\<forall>(sid, p) \<in> set acc. 0 \<le> p \<and> p \<le> 100"
  shows "\<exists>results. station_loop c sids acc = Inr results
           \<and> (\<forall>(sid, p) \<in> set results. 0 \<le> p \<and> p \<le> 100)
           \<and> map fst results = map fst acc @ sids"
  using assms(2,3)
proof (induction sids arbitrary: acc)
  case Nil
  then show ?case by simp
next
  case (Cons sid sids)
  obtain cids where cids: "map_of (station_chargers c) sid = Some cids"
    using Cons.prems(1) by auto
  obtain p where p: "station_uptime (charger_reports c) cids = Inr p" "0 \<le> p" "p \<le> 100"
    using station_uptime_range [OF well_formed_station [OF assms(1)]] by blast
  have "\<exists>results. station_loop c sids (acc @ [(sid, p)]) = Inr results
           \<and> (\<forall>(sid, p) \<in> set results. 0 \<le> p \<and> p \<le> 100)
           \<and> map fst results = map fst (acc @ [(sid, p)]) @ sids"
    by (rule Cons.IH) (use Cons.prems p in auto)
  then show ?case using cids p by simp
qed

lemma station_loop_member:
  assumes "station_loop c sids acc = Inr results"
  shows "set acc \<subseteq> set results"
    and "sid \<in> set sids \<Longrightarrow> map_of (station_chargers c) sid = Some cids \<Longrightarrow>
         station_uptime (charger_reports c) cids = Inr p \<Longrightarrow> (sid, p) \<in> set results"
  using assms
proof (induction sids arbitrary: acc)
  case Nil
  { case 1 then show ?case by simp }
  { case 2 then show ?case by simp }
next
  case (Cons s sids)
  { case 1
    then show ?case using Cons.IH(1) by (fastforce split: option.splits sum.splits) }
  { case 2
    from 2(4) obtain cs q where cs: "map_of (station_chargers c) s = Some cs"
      and q: "station_uptime (charger_reports c) cs = Inr q"
      and rest: "station_loop c sids (acc @ [(s, q)]) = Inr results"
      by (auto split: option.splits sum.splits)
    show ?case
    proof (cases "sid = s")
      case True
      then have "(sid, p) \<in> set (acc @ [(s, q)])" using cs q 2(2,3) by simp
      then show ?thesis using Cons.IH(1) [OF rest] by blast
    next
      case False
      then have "sid \<in> set sids" using 2(1) by simp
      then show ?thesis using Cons.IH(2) [OF _ 2(2) 2(3) rest] by simp
    qed }
qed

lemma calculate_member:
  assumes "calculate_station_uptime c = Inr results"
    and "map_of (station_chargers c) sid = Some cids"
    and "station_uptime (charger_reports c) cids = Inr p"
  shows "(sid, p) \<in> set results"
proof -
  have "sid \<in> set (sort (map fst (station_chargers c)))"
    using map_of_SomeD [OF assms(2)] by force
  then show ?thesis
    using station_loop_member(2) [OF assms(1) [unfolded calculate_station_uptime_def] _ assms(2,3)]
    by simp
qed

lemma calculate_range:
  assumes "well_formed c"
  shows "\<exists>results. calculate_station_uptime c = Inr results
           \<and> (\<forall>(sid, p) \<in> set results. 0 \<le> p \<and> p \<le> 100)
           \<and> map fst results = sort (map fst (station_chargers c))"
proof -
  have "\<forall>sid \<in> set (sort (map fst (station_chargers c))). map_of (station_chargers c) sid \<noteq> None"
    by (auto simp: map_of_eq_None_iff)
  from station_loop_range [OF assms this, of "[]"] show ?thesis
    by (simp add: calculate_station_uptime_def)
qed


text \<open>
  Claim C7. For every input dataset (reports with start at most end, as the data model and
  the parser have it), \<^verbatim>\<open>calculate_station_uptime\<close> returns a result list, with one pair for
  each station id in ascending order, and every percentage in it is an integer between 0 and
  100.
\<close>

theorem calculate_station_uptime_range:
  assumes "well_formed c"
  shows "\<exists>results. calculate_station_uptime c = Inr results
           \<and> (\<forall>(sid, p) \<in> set results. 0 \<le> p \<and> p \<le> 100)
           \<and> map fst results = sort (map fst (station_chargers c))"
  using assms by (rule calculate_range)

theorem calculate_station_uptime_range_witness:
  "well_formed \<lparr>station_chargers = [(0, [1000])],
      charger_reports = [(1000, [\<lparr>charger_id = 1000, start_time = 0, end_time = 50, is_up = True\<rparr>,
                                 \<lparr>charger_id = 1000, start_time = 75, end_time = 100, is_up = True\<rparr>])]\<rparr>
   \<and> (\<exists>p. calculate_station_uptime \<lparr>station_chargers = [(0, [1000])],
      charger_reports = [(1000, [\<lparr>charger_id = 1000, start_time = 0, end_time = 50, is_up = True\<rparr>,
                                 \<lparr>charger_id = 1000, start_time = 75, end_time = 100, is_up = True\<rparr>])]\<rparr>
        = Inr [(0, p)] \<and> 0 \<le> p \<and> p \<le> 100)"
proof -
  let ?c = "\<lparr>station_chargers = [(0, [1000])],
      charger_reports = [(1000, [\<lparr>charger_id = 1000, start_time = 0, end_time = 50, is_up = True\<rparr>,
                                 \<lparr>charger_id = 1000, start_time = 75, end_time = 100, is_up = True\<rparr>])]\<rparr>"
  have wf: "well_formed ?c" by (simp add: well_formed_def)
  from calculate_station_uptime_range [OF wf]
  obtain results where r: "calculate_station_uptime ?c = Inr results"
    "\<forall>(sid, p) \<in> set results. 0 \<le> p \<and> p \<le> 100"
    "map fst results = sort (map fst (station_chargers ?c))"
    by blast
  from r(3) obtain p where "results = [(0, p)]" by (cases results) auto
  then show ?thesis using wf r(1,2) by simp
qed


section \<open>A window of a single instant\<close>

text \<open>
  Claim C5. For a station with at least one report whose observed window is the single
  instant \<open>t\<close> (the least start and the greatest end of the reports of its chargers are both
  \<open>t\<close>), the result is 100 if some confirmed-up interval \<open>(s, e)\<close> of a member charger has
  \<open>s \<le> t \<le> e\<close>, and 0 otherwise; it is a result and not a division error, and it is the
  pair the result list has for the station.
\<close>

theorem single_instant_window_result:
  assumes "map_of (station_chargers c) sid = Some cids"
    and "station_reports (charger_reports c) cids \<noteq> {}"
    and "Min (start_time ` station_reports (charger_reports c) cids) = t"
    and "Max (end_time ` station_reports (charger_reports c) cids) = t"
  shows "station_uptime (charger_reports c) cids =
           Inr (if \<exists>cid \<in> set cids.
                     \<exists>(s, e) \<in> set (up_intervals_of (charger_reports c) cid). s \<le> t \<and> t \<le> e
                then 100 else 0)
     \<and> (\<forall>results. calculate_station_uptime c = Inr results \<longrightarrow>
           (sid, if \<exists>cid \<in> set cids.
                     \<exists>(s, e) \<in> set (up_intervals_of (charger_reports c) cid). s \<le> t \<and> t \<le> e
                 then 100 else 0) \<in> set results)"
  using station_uptime_instant [OF assms(2,3,4)] calculate_member [OF _ assms(1)]
  by blast

theorem single_instant_window_result_witness:
  "station_uptime [(1000, [\<lparr>charger_id = 1000, start_time = 100, end_time = 100, is_up = True\<rparr>])]
     [1000] = Inr 100
   \<and> station_uptime [(1000, [\<lparr>charger_id = 1000, start_time = 100, end_time = 100, is_up = False\<rparr>])]
     [1000] = Inr 0"
  using single_instant_window_result
    [of "\<lparr>station_chargers = [(0, [1000])], charger_reports =
          [(1000, [\<lparr>charger_id = 1000, start_time = 100, end_time = 100, is_up = True\<rparr>])]\<rparr>"
        0 "[1000]" 100]
    single_instant_window_result
    [of "\<lparr>station_chargers = [(0, [1000])], charger_reports =
          [(1000, [\<lparr>charger_id = 1000, start_time = 100, end_time = 100, is_up = False\<rparr>])]\<rparr>"
        0 "[1000]" 100]
  by (simp add: station_reports_def reports_of_def up_intervals_of_def sort_reports_def
      reconcile_def apply_report_def split_interval_def)

section \<open>Adding a report to a charger\<close>

lemma uptime_percentage_29_100: "uptime_percentage 29 100 = Inr 28"
proof (rule uptime_percentage_eval)
  show "binary64 (of_int 29 / of_int 100) = of_int 5224175567749775 * 2 powi (- 54)"
    by (rule binary64_eval [where k = "- 2"]) simp_all
  show "binary64 (of_int 5224175567749775 * 2 powi (- 54) * 100)
      = of_int 8162774324609023 * 2 powi (- 48)"
    by (rule binary64_eval [where k = 4]) simp_all
qed simp_all

lemma station_29_100:
  "station_uptime
        [(1000, [\<lparr>charger_id = 1000, start_time = 0, end_time = 29, is_up = True\<rparr>,
                 \<lparr>charger_id = 1000, start_time = 29, end_time = 100, is_up = False\<rparr>])] [1000]
     = uptime_percentage 29 100"
  by (simp add: station_uptime_def process_charger_def init_acc_def Let_def sort_reports_def
      reconcile_def apply_report_def split_interval_def merge_intervals_def merge_step_def less_eq_prod_def)

lemma insort_key_split: "\<exists>A B. insort_key f x ys = A @ x # B \<and> ys = A @ B"
proof (induction ys)
  case Nil
  show ?case by simp
next
  case (Cons y ys)
  show ?case
  proof (cases "f x \<le> f y")
    case True
    then have "insort_key f x (y # ys) = [] @ x # (y # ys) \<and> y # ys = [] @ (y # ys)" by simp
    then show ?thesis by blast
  next
    case False
    from Cons obtain A B where "insort_key f x ys = A @ x # B" "ys = A @ B" by blast
    then have "insort_key f x (y # ys) = (y # A) @ x # B \<and> y # ys = (y # A) @ B"
      using False by simp
    then show ?thesis by blast
  qed
qed

lemma insort_key_into_split:
  assumes "sorted (map f (A @ x # B))"
  shows "\<exists>A' B'. insort_key f a (A @ x # B) = A' @ x # B' \<and> insort_key f a (A @ B) = A' @ B'"
  using assms
proof (induction A)
  case Nil
  show ?case
  proof (cases "f a \<le> f x")
    case True
    have "insort_key f a B = a # B"
    proof (cases B)
      case Nil
      then show ?thesis by simp
    next
      case (Cons b B')
      then have "f x \<le> f b" using Nil.prems by simp
      then have "f a \<le> f b" using True by (rule order_trans [rotated])
      then show ?thesis using Cons by simp
    qed
    then have "insort_key f a ([] @ x # B) = [a] @ x # B \<and> insort_key f a ([] @ B) = [a] @ B"
      using True by simp
    then show ?thesis by blast
  next
    case False
    then have "insort_key f a ([] @ x # B) = [] @ x # insort_key f a B
        \<and> insort_key f a ([] @ B) = [] @ insort_key f a B"
      by simp
    then show ?thesis by blast
  qed
next
  case (Cons z A)
  show ?case
  proof (cases "f a \<le> f z")
    case True
    then have "insort_key f a ((z # A) @ x # B) = (a # z # A) @ x # B
        \<and> insort_key f a ((z # A) @ B) = (a # z # A) @ B"
      by simp
    then show ?thesis by blast
  next
    case False
    have "sorted (map f (A @ x # B))" using Cons.prems by simp
    from Cons.IH [OF this] obtain A' B' where
      "insort_key f a (A @ x # B) = A' @ x # B'" "insort_key f a (A @ B) = A' @ B'" by blast
    then have "insort_key f a ((z # A) @ x # B) = (z # A') @ x # B'
        \<and> insort_key f a ((z # A) @ B) = (z # A') @ B'"
      using False by simp
    then show ?thesis by blast
  qed
qed

lemma sort_key_insert_split:
  "\<exists>A B. sort_key f (xs @ x # ys) = A @ x # B \<and> sort_key f (xs @ ys) = A @ B"
proof (induction xs)
  case Nil
  show ?case using insort_key_split [of f x "sort_key f ys"] by simp
next
  case (Cons a xs)
  then obtain A B where AB: "sort_key f (xs @ x # ys) = A @ x # B" "sort_key f (xs @ ys) = A @ B"
    by blast
  have "sorted (map f (sort_key f (xs @ x # ys)))" by simp
  then have "sorted (map f (A @ x # B))" by (simp only: AB)
  from insort_key_into_split [OF this, of a] show ?case using AB by simp
qed

lemma cells_foldl_mono:
  assumes "cells ivs \<subseteq> cells ivs'"
  shows "cells (foldl apply_report ivs rs) \<subseteq> cells (foldl apply_report ivs' rs)"
  using assms
proof (induction rs arbitrary: ivs ivs')
  case Nil
  then show ?case by simp
next
  case (Cons r rs)
  have "cells (apply_report ivs r) \<subseteq> cells (apply_report ivs' r)"
    using Cons.prems by (auto simp: cells_apply_report)
  then show ?case using Cons.IH by simp
qed

lemma reconcile_add_up:
  assumes "is_up r"
  shows "cells (reconcile (sort_reports rs)) \<subseteq> cells (reconcile (sort_reports (rs @ [r])))"
proof -
  obtain A B where AB: "sort_reports (rs @ [r]) = A @ r # B" "sort_reports rs = A @ B"
    using sort_key_insert_split [of "\<lambda>x. (start_time x, \<not> is_up x)" rs r "[]"]
    by (auto simp: sort_reports_def)
  have "cells (foldl apply_report [] A) \<subseteq> cells (apply_report (foldl apply_report [] A) r)"
    using assms by (simp add: cells_apply_report)
  then have "cells (foldl apply_report (foldl apply_report [] A) B)
      \<subseteq> cells (foldl apply_report (apply_report (foldl apply_report [] A) r) B)"
    by (rule cells_foldl_mono)
  then show ?thesis by (simp add: AB reconcile_def)
qed

lemma reconcile_add_down:
  assumes "\<not> is_up r"
  shows "cells (reconcile (sort_reports (rs @ [r]))) \<subseteq> cells (reconcile (sort_reports rs))"
proof -
  obtain A B where AB: "sort_reports (rs @ [r]) = A @ r # B" "sort_reports rs = A @ B"
    using sort_key_insert_split [of "\<lambda>x. (start_time x, \<not> is_up x)" rs r "[]"]
    by (auto simp: sort_reports_def)
  have "cells (apply_report (foldl apply_report [] A) r) \<subseteq> cells (foldl apply_report [] A)"
    using assms by (auto simp: cells_apply_report)
  then have "cells (foldl apply_report (apply_report (foldl apply_report [] A) r) B)
      \<subseteq> cells (foldl apply_report (foldl apply_report [] A) B)"
    by (rule cells_foldl_mono)
  then show ?thesis by (simp add: AB reconcile_def)
qed

lemma reports_of_add_report:
  "reports_of (charger_reports (add_report r c)) cid =
     (if cid = charger_id r then reports_of (charger_reports c) cid @ [r]
      else reports_of (charger_reports c) cid)"
  by (simp add: add_report_def reports_of_def AList.update_conv')

lemma station_reports_add_report:
  assumes "charger_id r \<in> set cids"
  shows "station_reports (charger_reports (add_report r c)) cids
     = insert r (station_reports (charger_reports c) cids)"
  using assms by (auto simp: station_reports_def reports_of_add_report split: if_splits)

lemma station_cells_add_up:
  assumes "is_up r"
  shows "station_cells (charger_reports c) cids
     \<subseteq> station_cells (charger_reports (add_report r c)) cids"
proof -
  have "cells (up_intervals_of (charger_reports c) cid)
      \<subseteq> cells (up_intervals_of (charger_reports (add_report r c)) cid)" for cid
    using reconcile_add_up [OF assms]
    by (simp add: up_intervals_of_def reports_of_add_report)
  then show ?thesis unfolding station_cells_def by blast
qed

lemma station_cells_add_down:
  assumes "\<not> is_up r"
  shows "station_cells (charger_reports (add_report r c)) cids
     \<subseteq> station_cells (charger_reports c) cids"
proof -
  have "cells (up_intervals_of (charger_reports (add_report r c)) cid)
      \<subseteq> cells (up_intervals_of (charger_reports c) cid)" for cid
    using reconcile_add_down [OF assms]
    by (simp add: up_intervals_of_def reports_of_add_report)
  then show ?thesis unfolding station_cells_def by blast
qed

lemma station_uptime_window_percent:
  assumes "station_reports creports cids \<noteq> {}"
    and "well_formed_reports (station_reports creports cids)"
    and "Min (start_time ` station_reports creports cids) = lo"
    and "Max (end_time ` station_reports creports cids) = hi"
    and "lo \<noteq> hi"
  shows "station_uptime creports cids
           = Inr (percent_of (int (card (station_cells creports cids))) (hi - lo))"
    and "0 < hi - lo"
    and "int (card (station_cells creports cids)) \<le> hi - lo"
proof -
  have "lo \<le> hi"
    using station_window_ordered [OF assms(1) _ assms(2)] assms(3,4) by simp
  then show lt: "0 < hi - lo" using assms(5) by simp
  show le: "int (card (station_cells creports cids)) \<le> hi - lo"
    using station_cells_card [of creports cids] lt assms(3,4) by auto
  show "station_uptime creports cids
           = Inr (percent_of (int (card (station_cells creports cids))) (hi - lo))"
    using station_uptime_window [OF assms] uptime_percentage_eq [OF _ le lt] by simp
qed

lemma apply_report_instant:
  assumes "start_time x = t" and "end_time x = t" and "set ivs \<subseteq> {(t, t)}"
  shows "set (apply_report ivs x) = set ivs \<union> (if is_up x then {(t, t)} else {})"
proof (cases "is_up x")
  case True
  then show ?thesis using assms by (simp add: apply_report_def)
next
  case False
  have "\<forall>iv \<in> set ivs. split_interval t t iv = [iv]"
    using assms(3) by (auto simp: split_interval_def)
  then have "concat (map (split_interval t t) ivs) = ivs"
    by (induction ivs) simp_all
  then show ?thesis using False assms by (simp add: apply_report_def)
qed

lemma foldl_apply_report_instant:
  assumes "\<forall>x \<in> set xs. start_time x = t \<and> end_time x = t" and "set ivs \<subseteq> {(t, t)}"
  shows "set (foldl apply_report ivs xs)
     = set ivs \<union> (if \<exists>x \<in> set xs. is_up x then {(t, t)} else {})"
  using assms
proof (induction xs arbitrary: ivs)
  case Nil
  then show ?case by simp
next
  case (Cons x xs)
  have s: "set (apply_report ivs x) = set ivs \<union> (if is_up x then {(t, t)} else {})"
    by (rule apply_report_instant) (use Cons.prems in simp_all)
  then have sub: "set (apply_report ivs x) \<subseteq> {(t, t)}" using Cons.prems(2) by auto
  have "set (foldl apply_report (apply_report ivs x) xs)
     = set (apply_report ivs x) \<union> (if \<exists>x \<in> set xs. is_up x then {(t, t)} else {})"
    by (rule Cons.IH) (use Cons.prems sub in simp_all)
  then show ?case using s by auto
qed

lemma foldl_apply_report_all_down:
  assumes "\<forall>x \<in> set xs. \<not> is_up x"
  shows "foldl apply_report [] xs = []"
  using assms by (induction xs) (simp_all add: apply_report_def)

lemma station_uptime_instant_up:
  assumes wf: "well_formed_reports (station_reports creports cids)"
    and lo: "Min (start_time ` station_reports creports cids) = t"
    and hi: "Max (end_time ` station_reports creports cids) = t"
    and u: "u \<in> station_reports creports cids" "is_up u"
  shows "station_uptime creports cids = Inr 100"
proof -
  from u(1) obtain cid where cid: "cid \<in> set cids" "u \<in> set (reports_of creports cid)"
    by (auto simp: station_reports_def)
  have all: "\<forall>x \<in> set (sort_reports (reports_of creports cid)). start_time x = t \<and> end_time x = t"
  proof
    fix x assume "x \<in> set (sort_reports (reports_of creports cid))"
    then have x: "x \<in> station_reports creports cids"
      using cid(1) by (auto simp: station_reports_def)
    have "t \<le> start_time x" using station_bounds(1) [OF x] lo by simp
    moreover have "end_time x \<le> t" using station_bounds(2) [OF x] hi by simp
    moreover have "start_time x \<le> end_time x" using wf x by (simp add: well_formed_reports_def)
    ultimately show "start_time x = t \<and> end_time x = t" by simp
  qed
  have "set (up_intervals_of creports cid) = {(t, t)}"
    using foldl_apply_report_instant [OF all, of "[]"] cid(2) u(2)
    by (auto simp: up_intervals_of_def reconcile_def)
  then have "\<exists>cid \<in> set cids. \<exists>(s, e) \<in> set (up_intervals_of creports cid). s \<le> t \<and> t \<le> e"
    using cid(1) by force
  moreover have "station_reports creports cids \<noteq> {}" using u(1) by auto
  ultimately show ?thesis using station_uptime_instant [OF _ lo hi] by simp
qed

lemma up_intervals_all_down:
  assumes "\<forall>r \<in> station_reports creports cids. \<not> is_up r" and "cid \<in> set cids"
  shows "up_intervals_of creports cid = []"
proof -
  have "\<forall>x \<in> set (sort_reports (reports_of creports cid)). \<not> is_up x"
    using assms by (auto simp: station_reports_def)
  then show ?thesis
    by (simp add: up_intervals_of_def reconcile_def foldl_apply_report_all_down)
qed

lemma station_uptime_all_down:
  assumes wf: "well_formed_reports (station_reports creports cids)"
    and down: "\<forall>r \<in> station_reports creports cids. \<not> is_up r"
  shows "station_uptime creports cids = Inr 0"
proof (cases "station_reports creports cids = {}")
  case True
  then show ?thesis by (rule station_uptime_no_reports)
next
  case False
  let ?lo = "Min (start_time ` station_reports creports cids)"
  let ?hi = "Max (end_time ` station_reports creports cids)"
  show ?thesis
  proof (cases "?lo = ?hi")
    case True
    have "\<not> (\<exists>cid \<in> set cids. \<exists>(s, e) \<in> set (up_intervals_of creports cid). s \<le> ?lo \<and> ?lo \<le> e)"
      using up_intervals_all_down [OF down] by simp
    then show ?thesis using station_uptime_instant [OF False refl True [symmetric]] by simp
  next
    case ne: False
    have "station_cells creports cids = {}"
      using up_intervals_all_down [OF down] by (simp add: station_cells_def)
    then show ?thesis
      using station_uptime_window_percent(1) [OF False wf refl refl ne]
      by (simp add: percent_of_zero)
  qed
qed

lemma well_formed_insert:
  assumes "well_formed_reports R" and "start_time r \<le> end_time r"
  shows "well_formed_reports (insert r R)"
  using assms by (simp add: well_formed_reports_def)

lemma add_up_monotone:
  assumes wf: "well_formed c" and rwf: "start_time r \<le> end_time r"
    and mem: "charger_id r \<in> set cids" and up: "is_up r"
    and win: "station_reports (charger_reports c) cids \<noteq> {} \<longrightarrow>
        Min (start_time ` station_reports (charger_reports c) cids) \<le> start_time r \<and>
        end_time r \<le> Max (end_time ` station_reports (charger_reports c) cids)"
  shows "\<exists>p p'. station_uptime (charger_reports c) cids = Inr p
     \<and> station_uptime (charger_reports (add_report r c)) cids = Inr p' \<and> p \<le> p'"
proof -
  let ?cr = "charger_reports c" and ?cr' = "charger_reports (add_report r c)"
  let ?R = "station_reports ?cr cids" and ?R' = "station_reports ?cr' cids"
  have R': "?R' = insert r ?R" using mem by (rule station_reports_add_report)
  have wfR: "well_formed_reports ?R" using wf by (rule well_formed_station)
  have wfR': "well_formed_reports ?R'" unfolding R' using wfR rwf by (rule well_formed_insert)
  obtain p where p: "station_uptime ?cr cids = Inr p" "0 \<le> p" "p \<le> 100"
    using station_uptime_range [OF wfR] by blast
  obtain p' where p': "station_uptime ?cr' cids = Inr p'" "0 \<le> p'" "p' \<le> 100"
    using station_uptime_range [OF wfR'] by blast
  have "p \<le> p'"
  proof (cases "?R = {}")
    case True
    then have "p = 0" using p(1) by (simp add: station_uptime_no_reports)
    then show ?thesis using p'(2) by simp
  next
    case False
    let ?lo = "Min (start_time ` ?R)" and ?hi = "Max (end_time ` ?R)"
    have b: "?lo \<le> start_time r" "end_time r \<le> ?hi" using win False by simp_all
    have lo': "Min (start_time ` ?R') = ?lo"
    proof -
      have "Min (start_time ` ?R') = Min (insert (start_time r) (start_time ` ?R))"
        by (simp only: R' image_insert)
      also have "\<dots> = min (start_time r) ?lo" using False by (intro Min_insert) simp_all
      also have "\<dots> = ?lo" using b(1) by linarith
      finally show ?thesis .
    qed
    have hi': "Max (end_time ` ?R') = ?hi"
    proof -
      have "Max (end_time ` ?R') = Max (insert (end_time r) (end_time ` ?R))"
        by (simp only: R' image_insert)
      also have "\<dots> = max (end_time r) ?hi" using False by (intro Max_insert) simp_all
      also have "\<dots> = ?hi" using b(2) by linarith
      finally show ?thesis .
    qed
    have ne': "?R' \<noteq> {}" unfolding R' by simp
    show ?thesis
    proof (cases "?lo = ?hi")
      case True
      have hi'': "Max (end_time ` ?R') = ?lo" using hi' True by (simp only:)
      have rin: "r \<in> ?R'" by (simp only: R' insertI1)
      have "station_uptime ?cr' cids = Inr 100"
        by (rule station_uptime_instant_up [OF wfR' lo' hi'' rin up])
      then show ?thesis using p(3) p'(1) by simp
    next
      case ne: False
      note w = station_uptime_window_percent [OF False wfR refl refl ne]
      note w' = station_uptime_window_percent [OF ne' wfR' lo' hi' ne]
      have "card (station_cells ?cr cids) \<le> card (station_cells ?cr' cids)"
        by (rule card_mono) (simp_all add: station_cells_add_up [OF up])
      then have "int (card (station_cells ?cr cids)) * (?hi - ?lo)
          \<le> int (card (station_cells ?cr' cids)) * (?hi - ?lo)"
        using w(2) by (intro mult_right_mono) simp_all
      then have "percent_of (int (card (station_cells ?cr cids))) (?hi - ?lo)
          \<le> percent_of (int (card (station_cells ?cr' cids))) (?hi - ?lo)"
        using w(2) by (intro percent_of_mono) simp_all
      then show ?thesis using w(1) w'(1) p(1) p'(1) by simp
    qed
  qed
  then show ?thesis using p(1) p'(1) by blast
qed

lemma add_down_monotone:
  assumes wf: "well_formed c" and rwf: "start_time r \<le> end_time r"
    and mem: "charger_id r \<in> set cids" and down: "\<not> is_up r"
  shows "\<exists>p p'. station_uptime (charger_reports c) cids = Inr p
     \<and> station_uptime (charger_reports (add_report r c)) cids = Inr p' \<and> p' \<le> p"
proof -
  let ?cr = "charger_reports c" and ?cr' = "charger_reports (add_report r c)"
  let ?R = "station_reports ?cr cids" and ?R' = "station_reports ?cr' cids"
  have R': "?R' = insert r ?R" using mem by (rule station_reports_add_report)
  have wfR: "well_formed_reports ?R" using wf by (rule well_formed_station)
  have wfR': "well_formed_reports ?R'" unfolding R' using wfR rwf by (rule well_formed_insert)
  obtain p where p: "station_uptime ?cr cids = Inr p" "0 \<le> p" "p \<le> 100"
    using station_uptime_range [OF wfR] by blast
  obtain p' where p': "station_uptime ?cr' cids = Inr p'" "0 \<le> p'" "p' \<le> 100"
    using station_uptime_range [OF wfR'] by blast
  have "p' \<le> p"
  proof (cases "\<forall>x \<in> ?R. \<not> is_up x")
    case True
    then have "\<forall>x \<in> ?R'. \<not> is_up x" unfolding R' using down by simp
    then have "station_uptime ?cr' cids = Inr 0" using wfR' by (intro station_uptime_all_down)
    then show ?thesis using p'(1) p(2) by simp
  next
    case False
    then obtain u where u: "u \<in> ?R" "is_up u" by blast
    then have ne: "?R \<noteq> {}" by auto
    let ?lo = "Min (start_time ` ?R)" and ?hi = "Max (end_time ` ?R)"
    show ?thesis
    proof (cases "?lo = ?hi")
      case True
      have "station_uptime ?cr cids = Inr 100"
        by (rule station_uptime_instant_up [OF wfR refl True [symmetric] u])
      then show ?thesis using p(1) p'(3) by simp
    next
      case neq: False
      note w = station_uptime_window_percent [OF ne wfR refl refl neq]
      let ?lo' = "Min (start_time ` ?R')" and ?hi' = "Max (end_time ` ?R')"
      have lo': "?lo' \<le> ?lo" unfolding R' using ne by simp
      have hi': "?hi \<le> ?hi'" unfolding R' using ne by simp
      have neq': "?lo' \<noteq> ?hi'" using lo' hi' w(2) by linarith
      have ne': "?R' \<noteq> {}" unfolding R' by simp
      note w' = station_uptime_window_percent [OF ne' wfR' refl refl neq']
      have c: "card (station_cells ?cr' cids) \<le> card (station_cells ?cr cids)"
        by (rule card_mono) (simp_all add: station_cells_add_down [OF down])
      have "int (card (station_cells ?cr' cids)) * (?hi - ?lo)
          \<le> int (card (station_cells ?cr cids)) * (?hi' - ?lo')"
        by (rule mult_mono) (use c lo' hi' w(2) in simp_all)
      then have "percent_of (int (card (station_cells ?cr' cids))) (?hi' - ?lo')
          \<le> percent_of (int (card (station_cells ?cr cids))) (?hi - ?lo)"
        using w(2) w'(2) by (intro percent_of_mono) simp_all
      then show ?thesis using w(1) w'(1) p(1) p'(1) by simp
    qed
  qed
  then show ?thesis using p(1) p'(1) by blast
qed


lemma uptime_percentage_200_300: "uptime_percentage 200 300 = Inr 66"
proof (rule uptime_percentage_eval)
  show "binary64 (of_int 200 / of_int 300) = of_int 6004799503160661 * 2 powi (- 53)"
    by (rule binary64_eval [where k = "- 1"]) simp_all
  show "binary64 (of_int 6004799503160661 * 2 powi (- 53) * 100)
      = of_int 4691249611844266 * 2 powi (- 46)"
    by (rule binary64_eval [where k = 6]) simp_all
qed simp_all

lemma uptime_percentage_full: "b \<noteq> 0 \<Longrightarrow> 0 < b \<Longrightarrow> uptime_percentage b b = Inr 100"
  using uptime_percentage_eq [of b b] by (simp add: percent_of_full)

lemmas station_eval =
  station_uptime_def process_charger_def init_acc_def Let_def sort_reports_def
  reconcile_def apply_report_def split_interval_def merge_intervals_def merge_step_def
  less_eq_prod_def

lemma uptime_percentage_half: "uptime_percentage 50 100 = Inr 50"
proof (rule uptime_percentage_eval)
  show "binary64 (of_int 50 / of_int 100) = of_int (2 ^ 52) * 2 powi (- 53)"
    by (rule binary64_eval [where k = "- 1"]) simp_all
  show "binary64 (of_int (2 ^ 52) * 2 powi (- 53) * 100) = of_int (50 * 2 ^ 47) * 2 powi (- 47)"
    by (rule binary64_eval [where k = 5]) simp_all
qed simp_all

lemma uptime_percentage_quarter: "uptime_percentage 25 100 = Inr 25"
proof (rule uptime_percentage_eval)
  show "binary64 (of_int 25 / of_int 100) = of_int (2 ^ 52) * 2 powi (- 54)"
    by (rule binary64_eval [where k = "- 2"]) simp_all
  show "binary64 (of_int (2 ^ 52) * 2 powi (- 54) * 100) = of_int (25 * 2 ^ 48) * 2 powi (- 48)"
    by (rule binary64_eval [where k = 4]) simp_all
qed simp_all

lemma uptime_percentage_three_quarters: "uptime_percentage 75 100 = Inr 75"
proof (rule uptime_percentage_eval)
  show "binary64 (of_int 75 / of_int 100) = of_int (3 * 2 ^ 51) * 2 powi (- 53)"
    by (rule binary64_eval [where k = "- 1"]) simp_all
  show "binary64 (of_int (3 * 2 ^ 51) * 2 powi (- 53) * 100) = of_int (75 * 2 ^ 46) * 2 powi (- 46)"
    by (rule binary64_eval [where k = 6]) simp_all
qed simp_all

lemma uptime_percentage_20_30: "uptime_percentage 20 30 = Inr 66"
proof (rule uptime_percentage_eval)
  show "binary64 (of_int 20 / of_int 30) = of_int 6004799503160661 * 2 powi (- 53)"
    by (rule binary64_eval [where k = "- 1"]) simp_all
  show "binary64 (of_int 6004799503160661 * 2 powi (- 53) * 100)
      = of_int 4691249611844266 * 2 powi (- 46)"
    by (rule binary64_eval [where k = 6]) simp_all
qed simp_all

text \<open>
  The model on the inputs of the repository's tests \<^verbatim>\<open>test_multiple_stations\<close>,
  \<^verbatim>\<open>test_gaps_in_coverage\<close> and \<^verbatim>\<open>test_example_2\<close>, with the results the tests expect.
\<close>

lemma repository_tests:
  "calculate_station_uptime
     \<lparr>station_chargers = [(0, [1000]), (1, [1001]), (2, [1002])],
      charger_reports =
        [(1000, [\<lparr>charger_id = 1000, start_time = 0, end_time = 100, is_up = True\<rparr>]),
         (1001, [\<lparr>charger_id = 1001, start_time = 0, end_time = 100, is_up = False\<rparr>,
                 \<lparr>charger_id = 1001, start_time = 50, end_time = 100, is_up = True\<rparr>]),
         (1002, [\<lparr>charger_id = 1002, start_time = 0, end_time = 100, is_up = True\<rparr>,
                 \<lparr>charger_id = 1002, start_time = 25, end_time = 100, is_up = False\<rparr>])]\<rparr>
     = Inr [(0, 100), (1, 50), (2, 25)]"
  "calculate_station_uptime
     \<lparr>station_chargers = [(0, [1000])],
      charger_reports =
        [(1000, [\<lparr>charger_id = 1000, start_time = 0, end_time = 50, is_up = True\<rparr>,
                 \<lparr>charger_id = 1000, start_time = 75, end_time = 100, is_up = True\<rparr>])]\<rparr>
     = Inr [(0, 75)]"
  "calculate_station_uptime
     \<lparr>station_chargers = [(0, [0]), (1, [1])],
      charger_reports =
        [(0, [\<lparr>charger_id = 0, start_time = 10, end_time = 20, is_up = True\<rparr>,
              \<lparr>charger_id = 0, start_time = 20, end_time = 30, is_up = False\<rparr>,
              \<lparr>charger_id = 0, start_time = 30, end_time = 40, is_up = True\<rparr>]),
         (1, [\<lparr>charger_id = 1, start_time = 0, end_time = 1, is_up = True\<rparr>])]\<rparr>
     = Inr [(0, 66), (1, 100)]"
  by (simp_all add: calculate_station_uptime_def station_eval uptime_percentage_full
      uptime_percentage_half uptime_percentage_quarter uptime_percentage_three_quarters
      uptime_percentage_20_30)

section \<open>The order in which the reports of a charger are applied\<close>

lemma sort_reports_sorted:
  "sorted (map (\<lambda>x. (start_time x, \<not> is_up x)) (sort_reports rs))"
  by (simp add: sort_reports_def)

text \<open>
  Claim C1 says that of two reports of one charger with the same start and opposite status
  the down report is applied first. The sort key is \<open>(start_time, not is_up)\<close>, and
  \<open>False < True\<close>: the up report is applied first and the down report, applied last, removes
  it. Here the pair \<open>(0, 100, up)\<close>, \<open>(0, 100, down)\<close> is sorted and reconciled, supplied in
  either order: no interval is left and the station's percentage is 0, where the order of
  the claim, down first, leaves \<open>(0, 100)\<close>.
\<close>

theorem tie_break_applies_up_report_first:
  "sort_reports [\<lparr>charger_id = 1000, start_time = 0, end_time = 100, is_up = False\<rparr>,
                 \<lparr>charger_id = 1000, start_time = 0, end_time = 100, is_up = True\<rparr>]
     = [\<lparr>charger_id = 1000, start_time = 0, end_time = 100, is_up = True\<rparr>,
        \<lparr>charger_id = 1000, start_time = 0, end_time = 100, is_up = False\<rparr>]
   \<and> sort_reports [\<lparr>charger_id = 1000, start_time = 0, end_time = 100, is_up = True\<rparr>,
                 \<lparr>charger_id = 1000, start_time = 0, end_time = 100, is_up = False\<rparr>]
     = [\<lparr>charger_id = 1000, start_time = 0, end_time = 100, is_up = True\<rparr>,
        \<lparr>charger_id = 1000, start_time = 0, end_time = 100, is_up = False\<rparr>]
   \<and> reconcile (sort_reports
        [\<lparr>charger_id = 1000, start_time = 0, end_time = 100, is_up = False\<rparr>,
         \<lparr>charger_id = 1000, start_time = 0, end_time = 100, is_up = True\<rparr>]) = []
   \<and> reconcile [\<lparr>charger_id = 1000, start_time = 0, end_time = 100, is_up = False\<rparr>,
                \<lparr>charger_id = 1000, start_time = 0, end_time = 100, is_up = True\<rparr>]
     = [(0, 100)]
   \<and> calculate_station_uptime
        \<lparr>station_chargers = [(0, [1000])],
         charger_reports =
           [(1000, [\<lparr>charger_id = 1000, start_time = 0, end_time = 100, is_up = False\<rparr>,
                    \<lparr>charger_id = 1000, start_time = 0, end_time = 100, is_up = True\<rparr>])]\<rparr>
     = Inr [(0, 0)]"
  by (simp add: calculate_station_uptime_def station_eval uptime_percentage_eq percent_of_zero)

section \<open>The float computation against the exact floor\<close>

text \<open>
  Claim C2 says that for a window of positive length the percentage is the exact floor of
  \<open>100 * up / (max_time - min_time)\<close>. The code divides and multiplies in binary64: with 29
  units up in a window of 100 the quotient is the binary64 number just below \<open>0.29\<close>, its
  product with 100 rounds to \<open>28.999999999999996\<close>, and \<^verbatim>\<open>int\<close> truncates to 28, where the
  exact floor is 29.
\<close>

theorem float_percentage_below_exact_floor:
  "station_uptime
     [(1000, [\<lparr>charger_id = 1000, start_time = 0, end_time = 29, is_up = True\<rparr>,
              \<lparr>charger_id = 1000, start_time = 29, end_time = 100, is_up = False\<rparr>])] [1000]
     = uptime_percentage 29 100
   \<and> calculate_station_uptime
     \<lparr>station_chargers = [(0, [1000])],
      charger_reports =
        [(1000, [\<lparr>charger_id = 1000, start_time = 0, end_time = 29, is_up = True\<rparr>,
                 \<lparr>charger_id = 1000, start_time = 29, end_time = 100, is_up = False\<rparr>])]\<rparr>
     = Inr [(0, 28)]
   \<and> \<lfloor>100 * 29 / 100 :: rat\<rfloor> = 29"
  by (simp add: calculate_station_uptime_def station_29_100 uptime_percentage_29_100)

section \<open>Monotonicity in the reports\<close>

text \<open>
  Claim C3 says that an additional up report never lowers a station's percentage. The window
  is taken from the raw reports, so an up report outside the window widens it: a charger
  that is up over \<open>[0, 100]\<close> gives 100, and with a second up report over \<open>[200, 300]\<close> the
  window is \<open>[0, 300]\<close> and the percentage 66.
\<close>

theorem added_up_report_lowers_percentage:
  "station_uptime (charger_reports
      \<lparr>station_chargers = [(0, [1000])],
       charger_reports = [(1000, [\<lparr>charger_id = 1000, start_time = 0, end_time = 100, is_up = True\<rparr>])]\<rparr>)
     [1000] = Inr 100
   \<and> station_uptime (charger_reports (add_report
      \<lparr>charger_id = 1000, start_time = 200, end_time = 300, is_up = True\<rparr>
      \<lparr>station_chargers = [(0, [1000])],
       charger_reports = [(1000, [\<lparr>charger_id = 1000, start_time = 0, end_time = 100, is_up = True\<rparr>])]\<rparr>))
     [1000] = Inr 66"
proof -
  have a: "station_uptime
      [(1000, [\<lparr>charger_id = 1000, start_time = 0, end_time = 100, is_up = True\<rparr>])] [1000]
      = uptime_percentage 100 100"
    by (simp add: station_eval)
  have b: "station_uptime
      [(1000, [\<lparr>charger_id = 1000, start_time = 0, end_time = 100, is_up = True\<rparr>,
               \<lparr>charger_id = 1000, start_time = 200, end_time = 300, is_up = True\<rparr>])] [1000]
      = uptime_percentage 200 300"
    by (simp add: station_eval)
  show ?thesis
    by (simp add: add_report_def a b uptime_percentage_full uptime_percentage_200_300)
qed

text \<open>
  Claim C3, amended. In a dataset whose reports have start at most end, a report with start
  at most end is appended to the reports of a member charger of a station. If it is an up
  report that does not widen the station's observed window (or the station had no report),
  the station's percentage does not decrease; if it is a down report, the percentage does
  not increase. Both the old and the new percentage are results, not errors.
\<close>

theorem adding_report_monotone:
  assumes "well_formed c" and "start_time r \<le> end_time r" and "charger_id r \<in> set cids"
    and "is_up r \<longrightarrow> station_reports (charger_reports c) cids \<noteq> {} \<longrightarrow>
        Min (start_time ` station_reports (charger_reports c) cids) \<le> start_time r \<and>
        end_time r \<le> Max (end_time ` station_reports (charger_reports c) cids)"
  shows "\<exists>p p'. station_uptime (charger_reports c) cids = Inr p
     \<and> station_uptime (charger_reports (add_report r c)) cids = Inr p'
     \<and> (if is_up r then p \<le> p' else p' \<le> p)"
proof (cases "is_up r")
  case True
  then show ?thesis using add_up_monotone [OF assms(1,2,3) True] assms(4) by simp
next
  case False
  then show ?thesis using add_down_monotone [OF assms(1,2,3) False] by simp
qed

theorem adding_report_monotone_witness:
  "station_uptime
       [(1000, [\<lparr>charger_id = 1000, start_time = 0, end_time = 100, is_up = False\<rparr>])] [1000] = Inr 0
   \<and> station_uptime
       [(1000, [\<lparr>charger_id = 1000, start_time = 0, end_time = 100, is_up = False\<rparr>,
                \<lparr>charger_id = 1000, start_time = 50, end_time = 100, is_up = True\<rparr>])] [1000] = Inr 50
   \<and> station_uptime
       [(1000, [\<lparr>charger_id = 1000, start_time = 0, end_time = 100, is_up = True\<rparr>])] [1000] = Inr 100
   \<and> station_uptime
       [(1000, [\<lparr>charger_id = 1000, start_time = 0, end_time = 100, is_up = True\<rparr>,
                \<lparr>charger_id = 1000, start_time = 25, end_time = 100, is_up = False\<rparr>])] [1000] = Inr 25"
proof -
  have a: "station_uptime
       [(1000, [\<lparr>charger_id = 1000, start_time = 0, end_time = 100, is_up = False\<rparr>,
                \<lparr>charger_id = 1000, start_time = 50, end_time = 100, is_up = True\<rparr>])] [1000] = Inr 50"
    by (simp add: station_eval uptime_percentage_half)
  have b: "station_uptime
       [(1000, [\<lparr>charger_id = 1000, start_time = 0, end_time = 100, is_up = True\<rparr>])] [1000] = Inr 100"
    by (simp add: station_eval uptime_percentage_full)
  from adding_report_monotone
    [of "\<lparr>station_chargers = [(0, [1000])],
          charger_reports = [(1000, [\<lparr>charger_id = 1000, start_time = 0, end_time = 100, is_up = False\<rparr>])]\<rparr>"
        "\<lparr>charger_id = 1000, start_time = 50, end_time = 100, is_up = True\<rparr>" "[1000]"]
  obtain p where p: "station_uptime
       [(1000, [\<lparr>charger_id = 1000, start_time = 0, end_time = 100, is_up = False\<rparr>])] [1000] = Inr p"
     "p \<le> 50"
    by (auto simp: well_formed_def add_report_def station_reports_def reports_of_def a)
  have "station_uptime
       [(1000, [\<lparr>charger_id = 1000, start_time = 0, end_time = 100, is_up = False\<rparr>])] [1000] = Inr 0"
    by (simp add: station_eval uptime_percentage_eq percent_of_zero)
  moreover from adding_report_monotone
    [of "\<lparr>station_chargers = [(0, [1000])],
          charger_reports = [(1000, [\<lparr>charger_id = 1000, start_time = 0, end_time = 100, is_up = True\<rparr>])]\<rparr>"
        "\<lparr>charger_id = 1000, start_time = 25, end_time = 100, is_up = False\<rparr>" "[1000]"]
  obtain q where q: "station_uptime
       [(1000, [\<lparr>charger_id = 1000, start_time = 0, end_time = 100, is_up = True\<rparr>,
                \<lparr>charger_id = 1000, start_time = 25, end_time = 100, is_up = False\<rparr>])] [1000] = Inr q"
     "q \<le> 100"
    by (auto simp: well_formed_def add_report_def station_reports_def reports_of_def b)
  moreover have "station_uptime
       [(1000, [\<lparr>charger_id = 1000, start_time = 0, end_time = 100, is_up = True\<rparr>,
                \<lparr>charger_id = 1000, start_time = 25, end_time = 100, is_up = False\<rparr>])] [1000] = Inr 25"
    by (simp add: station_eval uptime_percentage_quarter)
  ultimately show ?thesis using a b by simp
qed

section \<open>The parser\<close>

lemma those_map_None: "those (map f xs) = None \<longleftrightarrow> (\<exists>x \<in> set xs. f x = None)"
  by (induction xs) (auto split: option.splits)

lemma parse_stations_error:
  "fst (parse_stations to_int ls c) =
     (if \<exists>line \<in> set ls. bad_station_line to_int line then Some ValueError else None)"
proof (induction ls arbitrary: c)
  case Nil
  show ?case by simp
next
  case (Cons line rest)
  show ?case
  proof (cases "strip line = []")
    case True
    then show ?thesis using Cons.IH by (simp add: bad_station_line_def)
  next
    case ne: False
    show ?thesis
    proof (cases "bad_station_line to_int line")
      case True
      then obtain short: "length (split_ws line) < 2 \<or> (\<exists>f \<in> set (split_ws line). to_int f = None)"
        by (simp add: bad_station_line_def)
      have "fst (parse_stations to_int (line # rest) c) = Some ValueError"
      proof (cases "length (split_ws line) < 2")
        case True
        then show ?thesis using ne by (simp add: Let_def)
      next
        case False
        then obtain p ps where parts: "split_ws line = p # ps" by (cases "split_ws line") auto
        from short False have "to_int p = None \<or> those (map to_int ps) = None"
          by (auto simp: parts those_map_None)
        then show ?thesis using ne False
          by (auto simp: Let_def parts split: option.splits)
      qed
      then show ?thesis using True by simp
    next
      case False
      then have len: "\<not> length (split_ws line) < 2"
        and all: "\<forall>f \<in> set (split_ws line). to_int f \<noteq> None"
        using ne by (auto simp: bad_station_line_def)
      from len obtain p ps where parts: "split_ws line = p # ps" by (cases "split_ws line") auto
      from all obtain sid where sid: "to_int p = Some sid" by (auto simp: parts)
      from all have "those (map to_int ps) \<noteq> None" by (simp add: those_map_None parts)
      then obtain cids where cids: "those (map to_int ps) = Some cids" by auto
      show ?thesis using ne len False Cons.IH
        by (simp add: Let_def parts sid cids)
    qed
  qed
qed

lemma parse_reports_step:
  assumes "strip line \<noteq> []"
  shows "parse_reports to_int (line # rest) c =
     (if bad_report_line to_int line then (Some ValueError, c)
      else parse_reports to_int rest
        (add_report \<lparr>charger_id = the (to_int (split_ws line ! 0)),
                     start_time = the (to_int (split_ws line ! 1)),
                     end_time = the (to_int (split_ws line ! 2)),
                     is_up = (lower (split_ws line ! 3) = ''true'')\<rparr> c))"
    and "\<not> bad_report_line to_int line \<Longrightarrow>
      the (to_int (split_ws line ! 1)) \<le> the (to_int (split_ws line ! 2))"
proof -
  let ?parts = "split_ws line"
  have three: "(\<exists>i < 3. P i) \<longleftrightarrow> P 0 \<or> P 1 \<or> P (2 :: nat)" for P :: "nat \<Rightarrow> bool"
  proof -
    have "i < 3 \<longleftrightarrow> i = 0 \<or> i = 1 \<or> i = 2" for i :: nat by auto
    then show ?thesis by auto
  qed
  show "\<not> bad_report_line to_int line \<Longrightarrow>
      the (to_int (split_ws line ! 1)) \<le> the (to_int (split_ws line ! 2))"
    using assms by (auto simp: bad_report_line_def three)
  show "parse_reports to_int (line # rest) c =
     (if bad_report_line to_int line then (Some ValueError, c)
      else parse_reports to_int rest
        (add_report \<lparr>charger_id = the (to_int (split_ws line ! 0)),
                     start_time = the (to_int (split_ws line ! 1)),
                     end_time = the (to_int (split_ws line ! 2)),
                     is_up = (lower (split_ws line ! 3) = ''true'')\<rparr> c))"
  proof (cases "length ?parts = 4")
    case False
    then have "bad_report_line to_int line" using assms by (simp add: bad_report_line_def)
    then show ?thesis using False assms by (simp add: Let_def)
  next
    case len: True
    show ?thesis
    proof (cases "to_int (?parts ! 0)")
      case None
      then have "bad_report_line to_int line" using assms by (simp add: bad_report_line_def three)
      then show ?thesis using None len assms by (simp add: Let_def)
    next
      case cid: (Some cid)
      show ?thesis
      proof (cases "to_int (?parts ! 1)")
        case None
        then have "bad_report_line to_int line" using assms by (simp add: bad_report_line_def three)
        then show ?thesis using None cid len assms by (simp add: Let_def)
      next
        case st: (Some start)
        show ?thesis
        proof (cases "to_int (?parts ! 2)")
          case None
          then have "bad_report_line to_int line"
            using assms by (simp add: bad_report_line_def three)
          then show ?thesis using None cid st len assms by (simp add: Let_def)
        next
          case en: (Some stop)
          have bad: "bad_report_line to_int line \<longleftrightarrow> start > stop"
            using assms len cid st en by (simp add: bad_report_line_def three)
          show ?thesis using cid st en len assms bad by (simp add: Let_def)
        qed
      qed
    qed
  qed
qed

lemma parse_reports_error:
  "fst (parse_reports to_int ls c) =
     (if \<exists>line \<in> set ls. bad_report_line to_int line then Some ValueError else None)"
proof (induction ls arbitrary: c)
  case Nil
  show ?case by simp
next
  case (Cons line rest)
  show ?case
  proof (cases "strip line = []")
    case True
    then show ?thesis using Cons.IH by (simp add: bad_report_line_def)
  next
    case False
    show ?thesis unfolding parse_reports_step(1) [OF False] using Cons.IH by simp
  qed
qed

lemma parse_input_file_error:
  "fst (parse_input_file to_int src c) =
     (if malformed to_int src then Some ValueError else None)"
proof (cases src)
  case None
  then show ?thesis by (simp add: parse_input_file_def malformed_def)
next
  case (Some body)
  let ?content = "split_on CHR 0x0A (strip body)"
  show ?thesis
  proof (cases "index_of ?content ''[Stations]''")
    case None
    then show ?thesis using Some by (simp add: parse_input_file_def malformed_def)
  next
    case ss: (Some stations_start)
    show ?thesis
    proof (cases "index_of ?content ''[Charger Availability Reports]''")
      case None
      then show ?thesis using Some ss by (simp add: parse_input_file_def malformed_def)
    next
      case rs: (Some reports_start)
      obtain e1 c1 where p1: "parse_stations to_int
          (stations_section ?content stations_start reports_start) c = (e1, c1)"
        by (cases "parse_stations to_int (stations_section ?content stations_start reports_start) c")
      obtain e2 c2 where p2: "parse_reports to_int (reports_section ?content reports_start) c1
          = (e2, c2)"
        by (cases "parse_reports to_int (reports_section ?content reports_start) c1")
      have e1: "e1 = (if \<exists>line \<in> set (stations_section ?content stations_start reports_start).
                         bad_station_line to_int line then Some ValueError else None)"
        using parse_stations_error [of to_int _ c] p1 by (metis fst_conv)
      have e2: "e2 = (if \<exists>line \<in> set (reports_section ?content reports_start).
                         bad_report_line to_int line then Some ValueError else None)"
        using parse_reports_error [of to_int _ c1] p2 by (metis fst_conv)
      have m: "malformed to_int src \<longleftrightarrow>
          (\<exists>line \<in> set (stations_section ?content stations_start reports_start).
              bad_station_line to_int line) \<or>
          (\<exists>line \<in> set (reports_section ?content reports_start). bad_report_line to_int line)"
        using Some ss rs by (simp add: malformed_def Let_def)
      have "fst (parse_input_file to_int src c) =
          (case e1 of Some e \<Rightarrow> Some ValueError
           | None \<Rightarrow> (case e2 of Some e \<Rightarrow> Some ValueError | None \<Rightarrow> None))"
        using Some ss rs p1 p2 by (simp add: parse_input_file_def Let_def split: option.splits)
      then show ?thesis unfolding m e1 e2 by simp
    qed
  qed
qed

lemma set_update_subset: "set (AList.update k v al) \<subseteq> insert (k, v) (set al)"
  by (induction al) auto

lemma well_formed_add_report:
  assumes "well_formed c" and "start_time r \<le> end_time r"
  shows "well_formed (add_report r c)"
  unfolding well_formed_def
proof (intro ballI, clarify)
  fix cid rs x
  assume in_new: "(cid, rs) \<in> set (charger_reports (add_report r c))" and x: "x \<in> set rs"
  let ?old = "case map_of (charger_reports c) (charger_id r) of None \<Rightarrow> [] | Some reports \<Rightarrow> reports"
  from in_new have "(cid, rs) \<in> insert (charger_id r, ?old @ [r]) (set (charger_reports c))"
    using set_update_subset [of "charger_id r" "?old @ [r]" "charger_reports c"]
    by (auto simp: add_report_def)
  then consider "rs = ?old @ [r]" | "(cid, rs) \<in> set (charger_reports c)" by auto
  then show "start_time x \<le> end_time x"
  proof cases
    case 1
    show ?thesis
    proof (cases "x = r")
      case True
      then show ?thesis using assms(2) by simp
    next
      case False
      then have "x \<in> set ?old" using 1 x by simp
      then obtain old where "map_of (charger_reports c) (charger_id r) = Some old" "x \<in> set old"
        by (cases "map_of (charger_reports c) (charger_id r)") auto
      then have "(charger_id r, old) \<in> set (charger_reports c)" by (auto dest: map_of_SomeD)
      then show ?thesis using assms(1) \<open>x \<in> set old\<close> unfolding well_formed_def by blast
    qed
  next
    case 2
    then show ?thesis using assms(1) x unfolding well_formed_def by blast
  qed
qed

lemma parse_stations_reports:
  "charger_reports (snd (parse_stations to_int ls c)) = charger_reports c"
  by (induction to_int ls c rule: parse_stations.induct)
     (auto simp: Let_def split: option.splits)

lemma well_formed_cong:
  "charger_reports c' = charger_reports c \<Longrightarrow> well_formed c \<Longrightarrow> well_formed c'"
  by (simp add: well_formed_def)

lemma parse_reports_well_formed:
  "well_formed c \<Longrightarrow> well_formed (snd (parse_reports to_int ls c))"
proof (induction ls arbitrary: c)
  case Nil
  then show ?case by simp
next
  case (Cons line rest)
  show ?case
  proof (cases "strip line = []")
    case True
    then show ?thesis using Cons by simp
  next
    case False
    show ?thesis
    proof (cases "bad_report_line to_int line")
      case True
      then show ?thesis unfolding parse_reports_step(1) [OF False] using Cons.prems by simp
    next
      case good: False
      let ?r = "\<lparr>charger_id = the (to_int (split_ws line ! 0)),
                 start_time = the (to_int (split_ws line ! 1)),
                 end_time = the (to_int (split_ws line ! 2)),
                 is_up = (lower (split_ws line ! 3) = ''true'')\<rparr>"
      have "well_formed (add_report ?r c)"
        by (rule well_formed_add_report [OF Cons.prems])
           (use parse_reports_step(2) [OF False good] in simp)
      then have "well_formed (snd (parse_reports to_int rest (add_report ?r c)))"
        by (rule Cons.IH)
      then show ?thesis unfolding parse_reports_step(1) [OF False] using good by simp
    qed
  qed
qed

lemma well_formed_empty: "well_formed empty_calculator"
  by (simp add: well_formed_def empty_calculator_def)

lemma parse_input_file_well_formed:
  assumes "well_formed c"
  shows "well_formed (snd (parse_input_file to_int src c))"
proof (cases src)
  case None
  then show ?thesis using assms by (simp add: parse_input_file_def)
next
  case (Some body)
  let ?content = "split_on CHR 0x0A (strip body)"
  show ?thesis
  proof (cases "index_of ?content ''[Stations]''")
    case None
    then show ?thesis using Some assms by (simp add: parse_input_file_def)
  next
    case ss: (Some stations_start)
    show ?thesis
    proof (cases "index_of ?content ''[Charger Availability Reports]''")
      case None
      then show ?thesis using Some ss assms by (simp add: parse_input_file_def)
    next
      case rs: (Some reports_start)
      obtain e1 c1 where p1: "parse_stations to_int
          (stations_section ?content stations_start reports_start) c = (e1, c1)"
        by (cases "parse_stations to_int (stations_section ?content stations_start reports_start) c")
      obtain e2 c2 where p2: "parse_reports to_int (reports_section ?content reports_start) c1
          = (e2, c2)"
        by (cases "parse_reports to_int (reports_section ?content reports_start) c1")
      have "charger_reports c1 = charger_reports c"
        using parse_stations_reports [of to_int _ c] p1 by (metis snd_conv)
      then have w1: "well_formed c1" using assms by (rule well_formed_cong)
      then have w2: "well_formed c2"
        using parse_reports_well_formed [OF w1, of to_int] p2 by (metis snd_conv)
      have "snd (parse_input_file to_int src c) = c1 \<or> snd (parse_input_file to_int src c) = c2"
        using Some ss rs p1 p2 by (auto simp: parse_input_file_def Let_def split: option.splits)
      then show ?thesis using w1 w2 by auto
    qed
  qed
qed

lemmas parse_eval =
  parse_input_file_def strip_def split_on.simps split_ws.simps is_space_def lower_def
  lower_char_def stations_section_def reports_section_def decimal_def decimal_nat_def
  digit_value_def Let_def add_report_def empty_calculator_def

lemma parse_test_basic:
  "parse_input_file decimal
     (Some (''[Stations]'' @ [CHR 0x0A] @ ''0 1000'' @ [CHR 0x0A] @ [CHR 0x0A] @
            ''[Charger Availability Reports]'' @ [CHR 0x0A] @ ''1000 0 100 true''))
     empty_calculator
   = (None, \<lparr>station_chargers = [(0, [1000])],
        charger_reports = [(1000, [\<lparr>charger_id = 1000, start_time = 0, end_time = 100, is_up = True\<rparr>])]\<rparr>)"
  by (simp add: parse_eval)

lemma parse_test_bad:
  "fst (parse_input_file decimal
     (Some (''[Stations]'' @ [CHR 0x0A] @ ''0 1000'' @ [CHR 0x0A] @ [CHR 0x0A] @
            ''[Charger Availability Reports]'' @ [CHR 0x0A] @ ''1000 100 0 true''))
     empty_calculator) = Some ValueError"
  by (simp add: parse_eval)

lemma parse_input_file_calculates:
  assumes "\<not> malformed to_int src"
  shows "\<exists>results. calculate_station_uptime
            (snd (parse_input_file to_int src empty_calculator)) = Inr results"
proof -
  have "well_formed (snd (parse_input_file to_int src empty_calculator))"
    using well_formed_empty by (rule parse_input_file_well_formed)
  from calculate_range [OF this] show ?thesis by blast
qed

text \<open>
  Claim C9. \<^verbatim>\<open>parse_input_file\<close> raises, and then always the one error kind \<^verbatim>\<open>ValueError\<close>,
  if and only if the input is malformed: the file cannot be read, a section marker is
  missing, a non-blank line of the stations section has fewer than two fields or a field
  that is not an integer, or a non-blank line of the reports section does not have exactly
  four fields, has a charger id or a time that is not an integer, or has its start after its
  end. A file that is not malformed is accepted without error, and on the dataset parsed
  from it \<^verbatim>\<open>calculate_station_uptime\<close> returns a result list without raising.
\<close>

theorem parse_input_file_raises_iff_malformed:
  "(fst (parse_input_file to_int src c) = Some ValueError \<longleftrightarrow> malformed to_int src)
   \<and> (fst (parse_input_file to_int src c) = None \<longleftrightarrow> \<not> malformed to_int src)
   \<and> (\<not> malformed to_int src \<longrightarrow>
        (\<exists>results. calculate_station_uptime
            (snd (parse_input_file to_int src empty_calculator)) = Inr results))"
  using parse_input_file_error [of to_int src c] parse_input_file_calculates [of to_int src]
  by simp

theorem parse_input_file_raises_iff_malformed_witness:
  "\<not> malformed decimal
     (Some (''[Stations]'' @ [CHR 0x0A] @ ''0 1000'' @ [CHR 0x0A] @ [CHR 0x0A] @
            ''[Charger Availability Reports]'' @ [CHR 0x0A] @ ''1000 0 100 true''))
   \<and> parse_input_file decimal
     (Some (''[Stations]'' @ [CHR 0x0A] @ ''0 1000'' @ [CHR 0x0A] @ [CHR 0x0A] @
            ''[Charger Availability Reports]'' @ [CHR 0x0A] @ ''1000 0 100 true''))
     empty_calculator
     = (None, \<lparr>station_chargers = [(0, [1000])],
          charger_reports =
            [(1000, [\<lparr>charger_id = 1000, start_time = 0, end_time = 100, is_up = True\<rparr>])]\<rparr>)
   \<and> (\<exists>results. calculate_station_uptime
          \<lparr>station_chargers = [(0, [1000])],
           charger_reports =
             [(1000, [\<lparr>charger_id = 1000, start_time = 0, end_time = 100, is_up = True\<rparr>])]\<rparr>
          = Inr results)
   \<and> malformed decimal
     (Some (''[Stations]'' @ [CHR 0x0A] @ ''0 1000'' @ [CHR 0x0A] @ [CHR 0x0A] @
            ''[Charger Availability Reports]'' @ [CHR 0x0A] @ ''1000 100 0 true''))
   \<and> malformed decimal (Some ''Invalid content'')
   \<and> malformed decimal None"
  using parse_input_file_raises_iff_malformed
     [of decimal "Some (''[Stations]'' @ [CHR 0x0A] @ ''0 1000'' @ [CHR 0x0A] @ [CHR 0x0A] @
            ''[Charger Availability Reports]'' @ [CHR 0x0A] @ ''1000 0 100 true'')"
         empty_calculator]
    parse_input_file_raises_iff_malformed
     [of decimal "Some (''[Stations]'' @ [CHR 0x0A] @ ''0 1000'' @ [CHR 0x0A] @ [CHR 0x0A] @
            ''[Charger Availability Reports]'' @ [CHR 0x0A] @ ''1000 100 0 true'')"
         empty_calculator]
    parse_input_file_raises_iff_malformed [of decimal "Some ''Invalid content''" empty_calculator]
    parse_test_basic parse_test_bad
  by (simp add: malformed_def split_on.simps strip_def is_space_def)

section \<open>The calculator in a store of list objects\<close>

lemma frame_refl [simp]: "frame W s s"
  by (simp add: frame_def)

lemma frame_trans:
  assumes "frame W s s'" and "frame W' s' s''"
    and "\<forall>a \<in> W'. a \<in> W \<or> next_tuple_list s \<le> a"
  shows "frame W s s''"
  unfolding frame_def
proof (intro conjI allI impI)
  show "next_report_list s \<le> next_report_list s''"
    using assms(1,2) by (simp add: frame_def)
  show "next_tuple_list s \<le> next_tuple_list s''"
    using assms(1,2) by (simp add: frame_def)
next
  fix a assume "a < next_report_list s"
  then show "report_lists s'' a = report_lists s a"
    using assms(1,2) by (simp add: frame_def)
next
  fix a assume a: "a < next_tuple_list s" "a \<notin> W"
  then have "a \<notin> W'" using assms(3) by auto
  moreover have "a < next_tuple_list s'" using a(1) assms(1) by (simp add: frame_def)
  ultimately have "tuple_lists s'' a = tuple_lists s' a" using assms(2) by (simp add: frame_def)
  then show "tuple_lists s'' a = tuple_lists s a" using a assms(1) by (simp add: frame_def)
qed

lemma frame_mono: "frame W s s' \<Longrightarrow> W \<subseteq> W' \<Longrightarrow> frame W' s s'"
  by (auto simp: frame_def)

lemma frame_fresh:
  "frame W s s' \<Longrightarrow> \<forall>a \<in> W. next_tuple_list s \<le> a \<Longrightarrow> frame {} s s'"
  unfolding frame_def by (metis empty_iff not_le)

lemma new_tuple_list_spec:
  assumes "new_tuple_list xs s = (a, s')"
  shows "a = next_tuple_list s" and "next_tuple_list s' = Suc a" and "tuple_lists s' a = xs"
    and "frame {} s s'" and "next_report_list s' = next_report_list s"
    and "\<forall>b. b \<noteq> a \<longrightarrow> tuple_lists s' b = tuple_lists s b"
  using assms by (auto simp: new_tuple_list_def frame_def)

lemma new_report_list_spec:
  assumes "new_report_list xs s = (a, s')"
  shows "a = next_report_list s" and "next_report_list s' = Suc a" and "report_lists s' a = xs"
    and "frame {} s s'" and "next_tuple_list s' = next_tuple_list s"
    and "tuple_lists s' = tuple_lists s"
  using assms by (auto simp: new_report_list_def frame_def)

lemma list_append_simps [simp]:
  "tuple_lists (list_append a x s) b = (if b = a then tuple_lists s a @ [x] else tuple_lists s b)"
  "next_tuple_list (list_append a x s) = next_tuple_list s"
  "next_report_list (list_append a x s) = next_report_list s"
  "report_lists (list_append a x s) = report_lists s"
  by (simp_all add: list_append_def)

lemma list_extend_simps [simp]:
  "tuple_lists (list_extend a c s) b
     = (if b = a then tuple_lists s a @ tuple_lists s c else tuple_lists s b)"
  "next_tuple_list (list_extend a c s) = next_tuple_list s"
  "next_report_list (list_extend a c s) = next_report_list s"
  "report_lists (list_extend a c s) = report_lists s"
  by (simp_all add: list_extend_def)

lemma list_sort_simps [simp]:
  "tuple_lists (list_sort a s) b = (if b = a then sort (tuple_lists s a) else tuple_lists s b)"
  "next_tuple_list (list_sort a s) = next_tuple_list s"
  "next_report_list (list_sort a s) = next_report_list s"
  "report_lists (list_sort a s) = report_lists s"
  by (simp_all add: list_sort_def)

lemma list_set_last_simps [simp]:
  "tuple_lists (list_set_last a x s) b
     = (if b = a then butlast (tuple_lists s a) @ [x] else tuple_lists s b)"
  "next_tuple_list (list_set_last a x s) = next_tuple_list s"
  "next_report_list (list_set_last a x s) = next_report_list s"
  "report_lists (list_set_last a x s) = report_lists s"
  by (simp_all add: list_set_last_def)

lemma merge_step_st_simps [simp]:
  "tuple_lists (merge_step_st m s iv) b
     = (if b = m then merge_step (tuple_lists s m) iv else tuple_lists s b)"
  "next_tuple_list (merge_step_st m s iv) = next_tuple_list s"
  "next_report_list (merge_step_st m s iv) = next_report_list s"
  "report_lists (merge_step_st m s iv) = report_lists s"
  by (simp_all add: merge_step_st_def merge_step_def Let_def)

lemma foldl_merge_step_st [simp]:
  "tuple_lists (foldl (merge_step_st m) s ivs) b
     = (if b = m then foldl merge_step (tuple_lists s m) ivs else tuple_lists s b)"
  "next_tuple_list (foldl (merge_step_st m) s ivs) = next_tuple_list s"
  "next_report_list (foldl (merge_step_st m) s ivs) = next_report_list s"
  "report_lists (foldl (merge_step_st m) s ivs) = report_lists s"
  by (induction ivs arbitrary: s) simp_all

lemma merge_intervals_st_spec:
  assumes "merge_intervals_st a s = (m, s')" and "a < next_tuple_list s"
  shows "tuple_lists s' m = merge_intervals (tuple_lists s a)"
    and "frame {a} s s'"
proof -
  show "tuple_lists s' m = merge_intervals (tuple_lists s a)"
  proof (cases "tuple_lists s a = []")
    case True
    then show ?thesis using assms(1)
      by (auto simp: merge_intervals_st_def merge_intervals_def new_tuple_list_def)
  next
    case False
    then show ?thesis using assms
      by (auto simp: merge_intervals_st_def merge_intervals_def new_tuple_list_def Let_def)
  qed
  show "frame {a} s s'"
    using assms
    by (auto simp: merge_intervals_st_def new_tuple_list_def Let_def frame_def split: if_splits)
qed

lemma append_all_simps [simp]:
  "tuple_lists (foldl (\<lambda>s x. list_append n x s) s xs) b
     = (if b = n then tuple_lists s n @ xs else tuple_lists s b)"
  "next_tuple_list (foldl (\<lambda>s x. list_append n x s) s xs) = next_tuple_list s"
  "next_report_list (foldl (\<lambda>s x. list_append n x s) s xs) = next_report_list s"
  "report_lists (foldl (\<lambda>s x. list_append n x s) s xs) = report_lists s"
  by (induction xs arbitrary: s) simp_all

lemma append_split_simps [simp]:
  "tuple_lists (foldl (\<lambda>s iv. foldl (\<lambda>s x. list_append n x s) s (g iv)) s ivs) b
     = (if b = n then tuple_lists s n @ concat (map g ivs) else tuple_lists s b)"
  "next_tuple_list (foldl (\<lambda>s iv. foldl (\<lambda>s x. list_append n x s) s (g iv)) s ivs)
     = next_tuple_list s"
  "next_report_list (foldl (\<lambda>s iv. foldl (\<lambda>s x. list_append n x s) s (g iv)) s ivs)
     = next_report_list s"
  "report_lists (foldl (\<lambda>s iv. foldl (\<lambda>s x. list_append n x s) s (g iv)) s ivs)
     = report_lists s"
  by (induction ivs arbitrary: s) simp_all

lemma apply_report_st_spec:
  assumes "apply_report_st (ci, s) r = (ci', s')" and "ci < next_tuple_list s"
  shows "tuple_lists s' ci' = apply_report (tuple_lists s ci) r"
    and "ci' < next_tuple_list s'"
    and "ci' = ci \<or> next_tuple_list s \<le> ci'"
    and "frame {ci} s s'"
proof -
  have "tuple_lists s' ci' = apply_report (tuple_lists s ci) r
      \<and> ci' < next_tuple_list s' \<and> (ci' = ci \<or> next_tuple_list s \<le> ci') \<and> frame {ci} s s'"
  proof (cases "is_up r")
    case True
    then show ?thesis using assms
      by (auto simp: apply_report_st_def apply_report_def frame_def)
  next
    case False
    then show ?thesis using assms
      by (auto simp: apply_report_st_def apply_report_def frame_def new_tuple_list_def Let_def)
  qed
  then show "tuple_lists s' ci' = apply_report (tuple_lists s ci) r"
    and "ci' < next_tuple_list s'"
    and "ci' = ci \<or> next_tuple_list s \<le> ci'"
    and "frame {ci} s s'"
    by simp_all
qed

lemma foldl_apply_report_st_spec:
  assumes "foldl apply_report_st (ci, s) rs = (ci', s')" and "ci < next_tuple_list s"
  shows "tuple_lists s' ci' = foldl apply_report (tuple_lists s ci) rs
     \<and> ci' < next_tuple_list s' \<and> (ci' = ci \<or> next_tuple_list s \<le> ci') \<and> frame {ci} s s'"
  using assms
proof (induction rs arbitrary: ci s)
  case Nil
  then show ?case by simp
next
  case (Cons r rs)
  obtain c1 s1 where step: "apply_report_st (ci, s) r = (c1, s1)"
    by (cases "apply_report_st (ci, s) r")
  note sp = apply_report_st_spec [OF step Cons.prems(2)]
  have rest: "foldl apply_report_st (c1, s1) rs = (ci', s')" using Cons.prems(1) step by simp
  note ih = Cons.IH [OF rest sp(2)]
  have le: "next_tuple_list s \<le> next_tuple_list s1" using sp(4) by (simp add: frame_def)
  have "frame {ci} s s'"
    by (rule frame_trans [OF sp(4) conjunct2 [OF conjunct2 [OF conjunct2 [OF ih]]]])
       (use sp(3) in auto)
  moreover have "ci' = ci \<or> next_tuple_list s \<le> ci'" using ih sp(3) le by auto
  ultimately show ?case using ih sp(1) by simp
qed

lemma map_of_creports:
  "map_of (creports_of refs s) cid = map_option (report_lists s) (map_of refs cid)"
  by (induction refs) (auto simp: creports_of_def)

lemma creports_of_frame:
  assumes "refs_valid refs s" and "frame W s s'"
  shows "creports_of refs s' = creports_of refs s" and "refs_valid refs s'"
  using assms by (auto simp: creports_of_def refs_valid_def frame_def)

lemma vars_rel_frame:
  assumes "vars_rel s vars acc" and "frame {} s s'"
  shows "vars_rel s' vars acc"
proof -
  have "\<forall>a \<in> snd ` set (charger_up_refs vars). tuple_lists s' a = tuple_lists s a"
    using assms by (auto simp: vars_rel_def frame_def)
  then have "map (\<lambda>(cid, a). (cid, tuple_lists s' a)) (charger_up_refs vars)
      = map (\<lambda>(cid, a). (cid, tuple_lists s a)) (charger_up_refs vars)"
    by (intro map_cong) auto
  then show ?thesis using assms by (auto simp: vars_rel_def frame_def)
qed

lemma map_update:
  "map (\<lambda>(k, a). (k, f a)) (AList.update k v al) = AList.update k (f v) (map (\<lambda>(k, a). (k, f a)) al)"
  by (induction al) auto

lemma set_update_values: "snd ` set (AList.update k v al) \<subseteq> insert v (snd ` set al)"
  by (induction al) auto

lemma process_charger_st_spec:
  assumes run: "process_charger_st refs (vars, s) cid = (vars', s')"
    and rel: "vars_rel s vars acc"
  shows "vars_rel s' vars' (process_charger (creports_of refs s) acc cid) \<and> frame {} s s'"
proof (cases "map_of refs cid")
  case None
  then have "vars' = vars" "s' = s" using run by (simp_all add: process_charger_st_def)
  moreover have "process_charger (creports_of refs s) acc cid = acc"
    using None by (simp add: process_charger_def map_of_creports)
  ultimately show ?thesis using rel by simp
next
  case (Some stored)
  define rs0 where "rs0 = report_lists s stored"
  obtain reports s1 where alloc:
    "new_report_list (sort_key (\<lambda>x. (start_time x, \<not> is_up x)) rs0) s = (reports, s1)"
    by (cases "new_report_list (sort_key (\<lambda>x. (start_time x, \<not> is_up x)) rs0) s")
  note a = new_report_list_spec [OF alloc]
  define rs where "rs = sort_reports rs0"
  have rs: "report_lists s1 reports = rs" using a(3) by (simp add: rs_def sort_reports_def)
  have pure: "map_of (creports_of refs s) cid = Some rs0"
    using Some by (simp add: map_of_creports rs0_def)
  show ?thesis
  proof (cases "rs = []")
    case True
    then have "vars' = vars" "s' = s1"
      using run Some alloc rs by (simp_all add: process_charger_st_def rs0_def Let_def)
    moreover have "process_charger (creports_of refs s) acc cid = acc"
      using True pure by (simp add: process_charger_def rs_def Let_def)
    ultimately show ?thesis using vars_rel_frame [OF rel a(4)] a(4) by simp
  next
    case False
    obtain ci s2 where new: "new_tuple_list [] s1 = (ci, s2)" by (cases "new_tuple_list [] s1")
    note n = new_tuple_list_spec [OF new]
    obtain ci' s3 where fold: "foldl apply_report_st (ci, s2) rs = (ci', s3)"
      by (cases "foldl apply_report_st (ci, s2) rs")
    have "ci < next_tuple_list s2" using n(1,2) by simp
    note f = foldl_apply_report_st_spec [OF fold this]
    have val: "tuple_lists s3 ci' = reconcile rs" using f n(3) by (simp add: reconcile_def)
    have f12: "frame {} s s2"
      by (rule frame_trans [OF a(4) n(4)]) simp
    have fr: "frame {} s s3"
    proof (rule frame_trans [OF f12])
      show "frame {ci} s2 s3" using f by simp
      show "\<forall>a \<in> {ci}. a \<in> {} \<or> next_tuple_list s \<le> a" using n(1) a(5) by simp
    qed
    have s': "s' = s3"
      and vars': "vars' = vars\<lparr>has_reports_var := True,
          min_time_var := Some (case min_time_var vars of None \<Rightarrow> Min (start_time ` set rs)
                                | Some t \<Rightarrow> min t (Min (start_time ` set rs))),
          max_time_var := Some (case max_time_var vars of None \<Rightarrow> Max (end_time ` set rs)
                                | Some t \<Rightarrow> max t (Max (end_time ` set rs))),
          charger_up_refs := (if tuple_lists s3 ci' = [] then charger_up_refs vars
                              else AList.update cid ci' (charger_up_refs vars))\<rparr>"
      using run Some alloc rs False new fold
      by (auto simp: process_charger_st_def rs0_def Let_def)
    have ro: "reports_of (creports_of refs s) cid = rs0" using pure by (simp add: reports_of_def)
    have ne0: "rs0 \<noteq> []" using False by (simp add: rs_def)
    have up: "up_intervals_of (creports_of refs s) cid = reconcile rs"
      by (simp add: up_intervals_of_def ro rs_def)
    have setrs: "set rs = set rs0" by (simp add: rs_def)
    note acc' = process_charger_reports [OF ro ne0, of acc, unfolded up, folded setrs]
    have rel3: "vars_rel s3 vars acc" using rel fr by (rule vars_rel_frame)
    have bound: "\<forall>a \<in> snd ` set (AList.update cid ci' (charger_up_refs vars)). a < next_tuple_list s3"
    proof
      fix a assume "a \<in> snd ` set (AList.update cid ci' (charger_up_refs vars))"
      then have "a = ci' \<or> a \<in> snd ` set (charger_up_refs vars)"
        using set_update_values [of cid ci' "charger_up_refs vars"] by blast
      moreover have "ci' < next_tuple_list s3" using f by simp
      moreover have "\<forall>b \<in> snd ` set (charger_up_refs vars). b < next_tuple_list s3"
        using rel3 by (simp add: vars_rel_def)
      ultimately show "a < next_tuple_list s3" by blast
    qed
    have "vars_rel s3 vars' (process_charger (creports_of refs s) acc cid)"
      unfolding vars' acc' using rel3 val bound
      by (auto simp: vars_rel_def map_update)
    then show ?thesis using fr s' by simp
  qed
qed

lemma foldl_process_charger_st_spec:
  assumes "foldl (process_charger_st refs) (vars, s) cids = (vars', s')"
    and "vars_rel s vars acc" and "refs_valid refs s"
  shows "vars_rel s' vars' (foldl (process_charger (creports_of refs s)) acc cids)
     \<and> frame {} s s'"
  using assms
proof (induction cids arbitrary: vars s acc)
  case Nil
  then show ?case by simp
next
  case (Cons cid cids)
  obtain v1 s1 where step: "process_charger_st refs (vars, s) cid = (v1, s1)"
    by (cases "process_charger_st refs (vars, s) cid")
  note sp = process_charger_st_spec [OF step Cons.prems(2)]
  have rest: "foldl (process_charger_st refs) (v1, s1) cids = (vars', s')"
    using Cons.prems(1) step by simp
  have fr: "frame {} s s1" using sp by simp
  note cf = creports_of_frame [OF Cons.prems(3) fr]
  have ih: "vars_rel s' vars'
      (foldl (process_charger (creports_of refs s1)) (process_charger (creports_of refs s) acc cid) cids)
     \<and> frame {} s1 s'"
    by (rule Cons.IH [OF rest _ cf(2)]) (use sp in simp)
  have "frame {} s s'" by (rule frame_trans [OF fr conjunct2 [OF ih]]) simp
  then show ?case using ih cf(1) by simp
qed

lemma vars_rel_init: "vars_rel s init_vars init_acc"
  by (simp add: vars_rel_def init_vars_def init_acc_def)

lemma foldl_extend_simps:
  assumes "a \<notin> set bs"
  shows "tuple_lists (foldl (\<lambda>s b. list_extend a b s) s bs) x
     = (if x = a then tuple_lists s a @ concat (map (tuple_lists s) bs) else tuple_lists s x)"
    and "next_tuple_list (foldl (\<lambda>s b. list_extend a b s) s bs) = next_tuple_list s"
    and "next_report_list (foldl (\<lambda>s b. list_extend a b s) s bs) = next_report_list s"
    and "report_lists (foldl (\<lambda>s b. list_extend a b s) s bs) = report_lists s"
  using assms
proof (induction bs arbitrary: s)
  case Nil
  { case 1 show ?case by simp }
  { case 2 show ?case by simp }
  { case 3 show ?case by simp }
  { case 4 show ?case by simp }
next
  case (Cons b bs)
  { case 1
    then have nb: "a \<noteq> b" and nbs: "a \<notin> set bs" by auto
    have meq: "map (tuple_lists (list_extend a b s)) bs = map (tuple_lists s) bs"
      using nbs by (intro map_cong) auto
    show ?case using nb by (simp add: Cons.IH(1) [OF nbs, of "list_extend a b s"] meq) }
  { case 2 then show ?case using Cons.IH(2) [of "list_extend a b s"] by simp }
  { case 3 then show ?case using Cons.IH(3) [of "list_extend a b s"] by simp }
  { case 4 then show ?case using Cons.IH(4) [of "list_extend a b s"] by simp }
qed

lemma station_uptime_st_spec:
  assumes run: "station_uptime_st refs cids s = (res, s')" and valid: "refs_valid refs s"
  shows "res = station_uptime (creports_of refs s) cids \<and> frame {} s s'"
proof -
  obtain vars s1 where fold: "foldl (process_charger_st refs) (init_vars, s) cids = (vars, s1)"
    by (cases "foldl (process_charger_st refs) (init_vars, s) cids")
  define acc where "acc = foldl (process_charger (creports_of refs s)) init_acc cids"
  from foldl_process_charger_st_spec [OF fold vars_rel_init valid]
  have rel: "vars_rel s1 vars acc" and f1: "frame {} s s1" by (simp_all add: acc_def)
  have mn: "min_time acc = min_time_var vars" and mx: "max_time acc = max_time_var vars"
    and hr: "has_reports acc = has_reports_var vars"
    and dict: "charger_up_intervals acc
        = map (\<lambda>(cid, a). (cid, tuple_lists s1 a)) (charger_up_refs vars)"
    and bound: "\<forall>a \<in> snd ` set (charger_up_refs vars). a < next_tuple_list s1"
    using rel by (simp_all add: vars_rel_def)
  have vals: "map snd (charger_up_intervals acc) = map (tuple_lists s1) (map snd (charger_up_refs vars))"
    unfolding dict by (induction "charger_up_refs vars") auto
  show ?thesis
  proof (cases "has_reports_var vars \<and> (\<exists>lo hi. min_time_var vars = Some lo
      \<and> max_time_var vars = Some hi \<and> lo \<noteq> hi)")
    case False
    then have "s' = s1" using run fold
      by (auto simp: station_uptime_st_def Let_def split: option.splits if_splits)
    moreover have "res = station_uptime (creports_of refs s) cids"
      using False run fold mn mx hr vals
      by (auto simp: station_uptime_st_def station_uptime_def acc_def [symmetric] Let_def
          split: option.splits if_splits)
    ultimately show ?thesis using f1 by simp
  next
    case True
    then obtain lo hi where b: "has_reports_var vars" "min_time_var vars = Some lo"
      "max_time_var vars = Some hi" "lo \<noteq> hi" by blast
    obtain al s2 where new: "new_tuple_list [] s1 = (al, s2)" by (cases "new_tuple_list [] s1")
    note n = new_tuple_list_spec [OF new]
    define s3 where "s3 = foldl (\<lambda>s b. list_extend al b s) s2 (map snd (charger_up_refs vars))"
    obtain m s4 where mg: "merge_intervals_st al s3 = (m, s4)" by (cases "merge_intervals_st al s3")
    have fresh: "al \<notin> set (map snd (charger_up_refs vars))" using bound n(1) by auto
    note e = foldl_extend_simps [OF fresh, of s2]
    have same: "map (tuple_lists s2) (map snd (charger_up_refs vars))
        = map (tuple_lists s1) (map snd (charger_up_refs vars))"
      using fresh n(6) by (intro map_cong) auto
    have all: "tuple_lists s3 al = concat (map snd (charger_up_intervals acc))"
      unfolding s3_def e(1) vals by (simp only: n(3) same append_Nil refl if_True)
    have "al < next_tuple_list s3" unfolding s3_def e(2) using n(1,2) by simp
    note ms = merge_intervals_st_spec [OF mg this]
    have f12: "frame {} s s2" by (rule frame_trans [OF f1 n(4)]) simp
    have f23: "frame {al} s2 s3"
      unfolding s3_def frame_def e(2) e(3) e(4) using e(1) by simp
    have f24: "frame {al} s2 s4" by (rule frame_trans [OF f23 ms(2)]) simp
    have le: "next_tuple_list s \<le> al" using n(1) f1 by (simp add: frame_def)
    have f: "frame {} s s4" by (rule frame_trans [OF f12 f24]) (use le in simp)
    have "s' = s4"
      and "res = uptime_percentage (\<Sum>(start, end) \<leftarrow> tuple_lists s4 m. end - start) (hi - lo)"
      using run fold b new mg by (auto simp: station_uptime_st_def Let_def s3_def)
    moreover have "station_uptime (creports_of refs s) cids
        = uptime_percentage
            (\<Sum>(start, end) \<leftarrow> merge_intervals (concat (map snd (charger_up_intervals acc))). end - start)
            (hi - lo)"
      using b mn mx hr by (simp add: station_uptime_def acc_def [symmetric] Let_def)
    ultimately show ?thesis using f ms(1) all by simp
  qed
qed

lemma calculator_of_frame:
  assumes "refs_valid (report_refs c) s" and "frame X s s'"
  shows "calculator_of c s' = calculator_of c s"
  using creports_of_frame(1) [OF assms] by (simp add: calculator_of_def creports_of_def)

lemma station_loop_st_spec:
  assumes "station_loop_st c sids res s = (out, s')"
    and "refs_valid (report_refs c) s" and "res < next_tuple_list s"
  shows "out = station_loop (calculator_of c s) sids (tuple_lists s res) \<and> frame {res} s s'"
  using assms
proof (induction sids arbitrary: s)
  case Nil
  then show ?case by auto
next
  case (Cons sid rest)
  have sc: "station_chargers (calculator_of c s) = station_sets c"
    and cr: "charger_reports (calculator_of c s) = creports_of (report_refs c) s"
    by (simp_all add: calculator_of_def creports_of_def)
  show ?case
  proof (cases "map_of (station_sets c) sid")
    case None
    then have "out = Inl KeyError" "s' = s" using Cons.prems(1) by auto
    moreover have "station_loop (calculator_of c s) (sid # rest) (tuple_lists s res) = Inl KeyError"
      using None by (simp add: sc)
    ultimately show ?thesis by simp
  next
    case (Some cids)
    obtain r s1 where st: "station_uptime_st (report_refs c) cids s = (r, s1)"
      by (cases "station_uptime_st (report_refs c) cids s")
    from station_uptime_st_spec [OF st Cons.prems(2)]
    have r: "r = station_uptime (creports_of (report_refs c) s) cids" and f1: "frame {} s s1"
      by simp_all
    show ?thesis
    proof (cases r)
      case (Inl e)
      then have "out = Inl e" "s' = s1" using Cons.prems(1) Some st by simp_all
      moreover have "station_loop (calculator_of c s) (sid # rest) (tuple_lists s res) = Inl e"
        using Some Inl r by (simp add: sc cr)
      ultimately show ?thesis using frame_mono [OF f1, of "{res}"] by simp
    next
      case (Inr p)
      let ?s2 = "list_append res (sid, p) s1"
      have rest: "station_loop_st c rest res ?s2 = (out, s')"
        using Cons.prems(1) Some st Inr by simp
      have v1: "refs_valid (report_refs c) s1" by (rule creports_of_frame(2) [OF Cons.prems(2) f1])
      have v2: "refs_valid (report_refs c) ?s2" using v1 by (simp add: refs_valid_def)
      have lt1: "res < next_tuple_list s1" using Cons.prems(3) f1 by (simp add: frame_def)
      then have lt2: "res < next_tuple_list ?s2" by simp
      note ih = Cons.IH [OF rest v2 lt2]
      have f12: "frame {res} s1 ?s2" by (simp add: frame_def)
      have c2: "calculator_of c ?s2 = calculator_of c s"
        using calculator_of_frame [OF v1 f12] calculator_of_frame [OF Cons.prems(2) f1] by simp
      have keep: "tuple_lists s1 res = tuple_lists s res"
        using f1 Cons.prems(3) by (simp add: frame_def)
      have "out = station_loop (calculator_of c s) (sid # rest) (tuple_lists s res)"
        using ih Some Inr r by (simp add: c2 sc cr keep)
      moreover have "frame {res} s s'"
      proof (rule frame_trans [OF frame_mono [OF f1, of "{res}"]])
        show "frame {res} s1 s'" by (rule frame_trans [OF f12 conjunct2 [OF ih]]) simp
      qed simp_all
      ultimately show ?thesis by simp
    qed
  qed
qed

lemma calculate_station_uptime_st_spec:
  assumes "calculate_station_uptime_st c s = (out, s')" and "refs_valid (report_refs c) s"
  shows "out = calculate_station_uptime (calculator_of c s)" and "frame {} s s'"
proof -
  obtain res s1 where new: "new_tuple_list [] s = (res, s1)" by (cases "new_tuple_list [] s")
  note n = new_tuple_list_spec [OF new]
  have loop: "station_loop_st c (sort (map fst (station_sets c))) res s1 = (out, s')"
    using assms(1) new by (simp add: calculate_station_uptime_st_def)
  have v1: "refs_valid (report_refs c) s1" by (rule creports_of_frame(2) [OF assms(2) n(4)])
  have "res < next_tuple_list s1" using n(1,2) by simp
  note sp = station_loop_st_spec [OF loop v1 this]
  have c1: "calculator_of c s1 = calculator_of c s" by (rule calculator_of_frame [OF assms(2) n(4)])
  have sc: "station_chargers (calculator_of c s) = station_sets c"
    by (simp add: calculator_of_def)
  have "out = station_loop (calculator_of c s) (sort (map fst (station_sets c))) []"
    using sp n(3) by (simp only: c1)
  then show "out = calculate_station_uptime (calculator_of c s)"
    by (simp only: calculate_station_uptime_def sc)
  show "frame {} s s'" by (rule frame_trans [OF n(4) conjunct2 [OF sp]]) (use n(1) in simp)
qed

text \<open>
  Claim C10. \<^verbatim>\<open>calculate_station_uptime\<close> does not modify the calculator: run on a store
  in which the report lists of the calculator are allocated, it leaves every list object
  that existed before the call as it was (the sort of the reports and the in-place sort of
  the merge work on lists allocated during the call), so the dataset read from the store
  after the call is the one read before it, the results are the ones the function computes
  from that dataset, and a second call returns the same results.
\<close>

theorem calculate_station_uptime_leaves_state:
  assumes "refs_valid (report_refs c) s"
    and "calculate_station_uptime_st c s = (results, s')"
  shows "(\<forall>a < next_report_list s. report_lists s' a = report_lists s a)
     \<and> (\<forall>a < next_tuple_list s. tuple_lists s' a = tuple_lists s a)
     \<and> calculator_of c s' = calculator_of c s
     \<and> results = calculate_station_uptime (calculator_of c s)
     \<and> fst (calculate_station_uptime_st c s') = results"
proof -
  note sp = calculate_station_uptime_st_spec [OF assms(2,1)]
  have v': "refs_valid (report_refs c) s'" by (rule creports_of_frame(2) [OF assms(1) sp(2)])
  have c': "calculator_of c s' = calculator_of c s" by (rule calculator_of_frame [OF assms(1) sp(2)])
  have "fst (calculate_station_uptime_st c s') = calculate_station_uptime (calculator_of c s')"
    using calculate_station_uptime_st_spec(1) [OF _ v', of "fst (calculate_station_uptime_st c s')"
        "snd (calculate_station_uptime_st c s')"] by simp
  then show ?thesis using sp c' by (simp add: frame_def)
qed

theorem calculate_station_uptime_leaves_state_witness:
  "fst (calculate_station_uptime_st
      \<lparr>station_sets = [(0, [1000])], report_refs = [(1000, 0)]\<rparr>
      (empty_store\<lparr>report_lists :=
          (\<lambda>a. []) (0 := [\<lparr>charger_id = 1000, start_time = 0, end_time = 100, is_up = True\<rparr>]),
         next_report_list := 1\<rparr>)) = Inr [(0, 100)]
   \<and> report_lists (snd (calculate_station_uptime_st
      \<lparr>station_sets = [(0, [1000])], report_refs = [(1000, 0)]\<rparr>
      (empty_store\<lparr>report_lists :=
          (\<lambda>a. []) (0 := [\<lparr>charger_id = 1000, start_time = 0, end_time = 100, is_up = True\<rparr>]),
         next_report_list := 1\<rparr>))) 0
     = [\<lparr>charger_id = 1000, start_time = 0, end_time = 100, is_up = True\<rparr>]
   \<and> fst (calculate_station_uptime_st
      \<lparr>station_sets = [(0, [1000])], report_refs = [(1000, 0)]\<rparr>
      (snd (calculate_station_uptime_st
        \<lparr>station_sets = [(0, [1000])], report_refs = [(1000, 0)]\<rparr>
        (empty_store\<lparr>report_lists :=
            (\<lambda>a. []) (0 := [\<lparr>charger_id = 1000, start_time = 0, end_time = 100, is_up = True\<rparr>]),
           next_report_list := 1\<rparr>)))) = Inr [(0, 100)]"
proof -
  let ?c = "\<lparr>station_sets = [(0, [1000])], report_refs = [(1000, 0)]\<rparr>"
  let ?s = "empty_store\<lparr>report_lists :=
          (\<lambda>a. []) (0 := [\<lparr>charger_id = 1000, start_time = 0, end_time = 100, is_up = True\<rparr>]),
         next_report_list := 1\<rparr>"
  have v: "refs_valid (report_refs ?c) ?s" by (simp add: refs_valid_def empty_store_def)
  have e: "calculate_station_uptime (calculator_of ?c ?s) = Inr [(0, 100)]"
    by (simp add: calculator_of_def empty_store_def calculate_station_uptime_def station_eval
        uptime_percentage_full)
  from calculate_station_uptime_leaves_state [OF v, of "fst (calculate_station_uptime_st ?c ?s)"
      "snd (calculate_station_uptime_st ?c ?s)"] e
  show ?thesis by (simp add: empty_store_def)
qed

end
